theory Spec2Isabelle
  imports
    Main
    "HOL-Library.Sublist"
    "HOL-Library.Sorting_Algorithms"
    "HOL-Library.List_Lexorder"
    "HOL-Library.Char_ord"
begin

section \<open>The ontology loader of the OWL viewer (owl-viewer/src/App.tsx)\<close>

text \<open>
  The viewer parses an OWL document with the browser's \<^verbatim>\<open>DOMParser\<close>, walks the
  resulting DOM with \<^verbatim>\<open>getElementsByTagName\<close>, \<^verbatim>\<open>getAttribute\<close> and
  \<^verbatim>\<open>textContent\<close>, and builds a \<^verbatim>\<open>Map\<close> from class identifiers to
  \<^verbatim>\<open>OntologyClass\<close> objects.  The DOM, the JavaScript \<^verbatim>\<open>Map\<close> and the
  string and array methods the code calls are modelled first, then the functions
  \<^verbatim>\<open>parseOWL\<close>, \<^verbatim>\<open>getChildNodes\<close> and \<^verbatim>\<open>hasMatchingChild\<close>.
\<close>

subsection \<open>The DOM\<close>

text \<open>
  An element has a qualified tag name, attributes and child nodes; text and comment
  nodes carry their data.  A document owns a list of top-level nodes.
\<close>

datatype node =
    Element string "(string \<times> string) list" "node list"
  | Text string
  | Comment string

datatype document = Document "node list"

fun is_Comment :: "node \<Rightarrow> bool" where
  "is_Comment (Comment s) = True"
| "is_Comment n = False"

text \<open>\<^verbatim>\<open>Node.textContent\<close>: the data of a text or comment node; for an element the
  concatenation of the \<^verbatim>\<open>textContent\<close> of its children, comments left out.\<close>

fun textContent :: "node \<Rightarrow> string" where
  "textContent (Text s) = s"
| "textContent (Comment s) = s"
| "textContent (Element t as cs) =
     concat (map textContent (filter (\<lambda>c. \<not> is_Comment c) cs))"

text \<open>All nodes below a node, in document order (preorder), the node itself excluded.\<close>

fun descendants :: "node \<Rightarrow> node list" where
  "descendants (Element t as cs) = concat (map (\<lambda>c. c # descendants c) cs)"
| "descendants (Text s) = []"
| "descendants (Comment s) = []"

fun has_tagName :: "string \<Rightarrow> node \<Rightarrow> bool" where
  "has_tagName name (Element t as cs) = (t = name)"
| "has_tagName name n = False"

text \<open>\<^verbatim>\<open>Element.getElementsByTagName\<close>: the descendant elements with the given
  qualified name, in document order.\<close>

definition getElementsByTagName :: "node \<Rightarrow> string \<Rightarrow> node list" where
  "getElementsByTagName e name = filter (has_tagName name) (descendants e)"

text \<open>\<^verbatim>\<open>Document.getElementsByTagName\<close>: the same over the whole document, the
  root element included.\<close>

fun document_getElementsByTagName :: "document \<Rightarrow> string \<Rightarrow> node list" where
  "document_getElementsByTagName (Document ns) name =
     filter (has_tagName name) (concat (map (\<lambda>c. c # descendants c) ns))"

text \<open>\<^verbatim>\<open>Element.getAttribute\<close>: the attribute's value, or \<^verbatim>\<open>null\<close>
  (\<open>None\<close>) when the element has no such attribute.\<close>

fun getAttribute :: "node \<Rightarrow> string \<Rightarrow> string option" where
  "getAttribute (Element t as cs) name = map_of as name"
| "getAttribute n name = None"

subsection \<open>JavaScript strings and arrays\<close>

text \<open>
  \<^verbatim>\<open>a || b\<close> on values that are a string, \<^verbatim>\<open>null\<close> or \<^verbatim>\<open>undefined\<close>:
  \<^verbatim>\<open>a\<close> when it is truthy (a non-empty string), else \<^verbatim>\<open>b\<close>.  \<open>js_or_str\<close> is
  the case where \<^verbatim>\<open>b\<close> is known to be a string.
\<close>

definition js_or :: "string option \<Rightarrow> string option \<Rightarrow> string option" where
  "js_or a b = (case a of None \<Rightarrow> b | Some s \<Rightarrow> if s \<noteq> [] then Some s else b)"

definition js_or_str :: "string option \<Rightarrow> string \<Rightarrow> string" where
  "js_or_str a b = (case a of None \<Rightarrow> b | Some s \<Rightarrow> if s \<noteq> [] then s else b)"

text \<open>\<^verbatim>\<open>arr || []\<close>: an array is truthy even when empty, so only \<^verbatim>\<open>undefined\<close>
  is replaced.\<close>

definition js_or_empty :: "'a list option \<Rightarrow> 'a list" where
  "js_or_empty a = (case a of None \<Rightarrow> [] | Some arr \<Rightarrow> arr)"

text \<open>\<^verbatim>\<open>String.prototype.split\<close> with a one-character separator: the segments
  between the separators; never an empty array.\<close>

fun split :: "char \<Rightarrow> string \<Rightarrow> string list" where
  "split sep [] = [[]]"
| "split sep (c # cs) =
     (if c = sep then [] # split sep cs
      else (case split sep cs of [] \<Rightarrow> [[c]] | s # ss \<Rightarrow> (c # s) # ss))"

text \<open>\<^verbatim>\<open>Array.prototype.pop\<close>, its result only: the last element, or
  \<^verbatim>\<open>undefined\<close> on an empty array.\<close>

fun pop :: "'a list \<Rightarrow> 'a option" where
  "pop [] = None"
| "pop (x # xs) = Some (last (x # xs))"

text \<open>\<^verbatim>\<open>arr[0]\<close>: the first element, or \<^verbatim>\<open>undefined\<close>.\<close>

fun first_elem :: "'a list \<Rightarrow> 'a option" where
  "first_elem [] = None"
| "first_elem (x # xs) = Some x"

text \<open>
  \<^verbatim>\<open>String.prototype.toLowerCase\<close>.  A \<open>char\<close> stands for a UTF-16 code unit below
  256, that is, a character of the Latin-1 range; a string with other characters is outside
  the type \<open>string\<close>.  In that range the cased capitals are \<open>A\<close> to \<open>Z\<close> (65 to 90) and
  the accented capitals 192 to 214 and 216 to 222; each has its small letter 32 places
  higher.  Every other character of the range is its own lower case.
\<close>

definition lower_char :: "char \<Rightarrow> char" where
  "lower_char c =
     (if ((65::nat) \<le> of_char c \<and> of_char c \<le> (90::nat)) \<or>
         ((192::nat) \<le> of_char c \<and> of_char c \<le> (214::nat)) \<or>
         ((216::nat) \<le> of_char c \<and> of_char c \<le> (222::nat))
      then char_of (of_char c + (32::nat)) else c)"

definition toLowerCase :: "string \<Rightarrow> string" where
  "toLowerCase s = map lower_char s"

text \<open>\<^verbatim>\<open>String.prototype.includes\<close>: does \<open>t\<close> occur in \<open>s\<close> at some
  position?\<close>

fun includes_str :: "string \<Rightarrow> string \<Rightarrow> bool" where
  "includes_str [] t = (t = [])"
| "includes_str (c # cs) t = (prefix t (c # cs) \<or> includes_str cs t)"

subsection \<open>JavaScript \<^verbatim>\<open>Map\<close>\<close>

text \<open>
  A \<^verbatim>\<open>Map\<close> iterates in insertion order, and \<^verbatim>\<open>set\<close> on a key that is already
  present replaces the value where the key stands; so a \<^verbatim>\<open>Map\<close> is an association
  list with distinct keys.
\<close>

type_synonym ('k, 'v) Map = "('k \<times> 'v) list"

definition Map_get :: "('k, 'v) Map \<Rightarrow> 'k \<Rightarrow> 'v option" where
  "Map_get m k = map_of m k"

definition Map_has :: "('k, 'v) Map \<Rightarrow> 'k \<Rightarrow> bool" where
  "Map_has m k = (map_of m k \<noteq> None)"

fun Map_set :: "('k, 'v) Map \<Rightarrow> 'k \<Rightarrow> 'v \<Rightarrow> ('k, 'v) Map" where
  "Map_set [] k v = [(k, v)]"
| "Map_set ((k', v') # m) k v =
     (if k' = k then (k, v) # m else (k', v') # Map_set m k v)"

definition Map_values :: "('k, 'v) Map \<Rightarrow> 'v list" where
  "Map_values m = map snd m"

subsection \<open>The data model\<close>

record OntologyClass =
  id' :: string
  label :: string
  description :: string
  children :: "string list"
  parents :: "string list"

record OntologyData =
  classMap :: "(string, OntologyClass) Map"
  roots :: "OntologyClass list"

datatype error = TypeError


subsection \<open>\<^verbatim>\<open>parseOWL\<close>\<close>

text \<open>
  Lines 56 to 59 and 61 to 64: create the array under the key when the map has none,
  then \<^verbatim>\<open>map.get(key)!.push(value)\<close>.  The \<^verbatim>\<open>!\<close> is a compile-time assertion
  only: were \<^verbatim>\<open>get\<close> to return \<^verbatim>\<open>undefined\<close>, \<^verbatim>\<open>push\<close> would throw a
  \<^verbatim>\<open>TypeError\<close>.
\<close>

definition Map_push :: "(string, string list) Map \<Rightarrow> string \<Rightarrow> string
    \<Rightarrow> error + (string, string list) Map" where
  "Map_push m k v =
     (let m1 = (if \<not> Map_has m k then Map_set m k [] else m)
      in case Map_get m1 k of
           None \<Rightarrow> Inl TypeError
         | Some arr \<Rightarrow> Inr (Map_set m1 k (arr @ [v])))"

text \<open>The inner loop (lines 53 to 66) over the \<^verbatim>\<open>rdfs:subClassOf\<close> elements of one
  class; the state is \<^verbatim>\<open>parentChildMap\<close> and \<^verbatim>\<open>childParentMap\<close>.\<close>

fun subClassOf_loop :: "string \<Rightarrow> node list
    \<Rightarrow> (string, string list) Map \<times> (string, string list) Map
    \<Rightarrow> error + ((string, string list) Map \<times> (string, string list) Map)" where
  "subClassOf_loop i [] (parentChildMap, childParentMap) =
     Inr (parentChildMap, childParentMap)"
| "subClassOf_loop i (e # es) (parentChildMap, childParentMap) =
     (case getAttribute e ''rdf:resource'' of
        None \<Rightarrow> subClassOf_loop i es (parentChildMap, childParentMap)
      | Some parent \<Rightarrow>
          if parent = [] then subClassOf_loop i es (parentChildMap, childParentMap)
          else (case Map_push parentChildMap parent i of
                  Inl err \<Rightarrow> Inl err
                | Inr parentChildMap' \<Rightarrow>
                    (case Map_push childParentMap i parent of
                       Inl err \<Rightarrow> Inl err
                     | Inr childParentMap' \<Rightarrow>
                         subClassOf_loop i es (parentChildMap', childParentMap'))))"

text \<open>Line 37: \<^verbatim>\<open>cls.getAttribute('rdf:about') || cls.getAttribute('rdf:ID')\<close>.\<close>

definition class_id :: "node \<Rightarrow> string option" where
  "class_id cls = js_or (getAttribute cls ''rdf:about'') (getAttribute cls ''rdf:ID'')"

text \<open>Line 40.  The optional chain \<^verbatim>\<open>id.split('#').pop()?.split('/').pop()\<close> is
  \<^verbatim>\<open>undefined\<close> as a whole when the first \<^verbatim>\<open>pop\<close> is.\<close>

definition class_label :: "node \<Rightarrow> string \<Rightarrow> string" where
  "class_label cls i =
     js_or_str
       (js_or
          (map_option textContent (first_elem (getElementsByTagName cls ''rdfs:label'')))
          (Option.bind (pop (split CHR ''#'' i)) (\<lambda>s. pop (split CHR ''/'' s))))
       i"

text \<open>Line 41.\<close>

definition class_description :: "node \<Rightarrow> string" where
  "class_description cls =
     js_or_str
       (map_option textContent (first_elem (getElementsByTagName cls ''rdfs:comment'')))
       []"

text \<open>The outer loop (lines 35 to 68) over the \<^verbatim>\<open>owl:Class\<close> elements; the state
  is \<^verbatim>\<open>classMap\<close>, \<^verbatim>\<open>parentChildMap\<close> and \<^verbatim>\<open>childParentMap\<close>.\<close>

fun owlClasses_loop :: "node list
    \<Rightarrow> (string, OntologyClass) Map \<times> (string, string list) Map \<times> (string, string list) Map
    \<Rightarrow> error + ((string, OntologyClass) Map \<times> (string, string list) Map
                 \<times> (string, string list) Map)" where
  "owlClasses_loop [] (cm, parentChildMap, childParentMap) =
     Inr (cm, parentChildMap, childParentMap)"
| "owlClasses_loop (cls # rest) (cm, parentChildMap, childParentMap) =
     (case class_id cls of
        None \<Rightarrow> owlClasses_loop rest (cm, parentChildMap, childParentMap)
      | Some i \<Rightarrow>
          if i = [] then owlClasses_loop rest (cm, parentChildMap, childParentMap)
          else
            (let cm' = Map_set cm i
                   \<lparr>id' = i, label = class_label cls i,
                    description = class_description cls,
                    children = [], parents = []\<rparr>
             in case subClassOf_loop i (getElementsByTagName cls ''rdfs:subClassOf'')
                       (parentChildMap, childParentMap) of
                  Inl err \<Rightarrow> Inl err
                | Inr (parentChildMap', childParentMap') \<Rightarrow>
                    owlClasses_loop rest (cm', parentChildMap', childParentMap')))"

text \<open>Lines 71 to 74: every node of \<^verbatim>\<open>classMap\<close> gets its arrays.\<close>

definition build_arrays :: "(string, string list) Map \<Rightarrow> (string, string list) Map
    \<Rightarrow> (string, OntologyClass) Map \<Rightarrow> (string, OntologyClass) Map" where
  "build_arrays parentChildMap childParentMap cm =
     map (\<lambda>(i, node). (i, node\<lparr>children := js_or_empty (Map_get parentChildMap i),
                                 parents := js_or_empty (Map_get childParentMap i)\<rparr>)) cm"

text \<open>Lines 77 to 82: the nodes without parents, pushed in \<^verbatim>\<open>Map\<close> order.\<close>

definition find_roots :: "(string, OntologyClass) Map \<Rightarrow> OntologyClass list" where
  "find_roots cm =
     fold (\<lambda>node rs. if length (parents node) = 0 then rs @ [node] else rs)
       (Map_values cm) []"

text \<open>
  \<^verbatim>\<open>arr.sort((a, b) => a.label.localeCompare(b.label))\<close>.  The collation of the
  browser's locale is a parameter \<open>lc\<close>, a comparator on strings
  (\<^verbatim>\<open>localeCompare\<close> negative, zero or positive is \<open>Less\<close>, \<open>Equiv\<close> or
  \<open>Greater\<close>); \<^verbatim>\<open>Array.prototype.sort\<close> is stable.
\<close>

definition sort_by_label :: "string comparator \<Rightarrow> OntologyClass list \<Rightarrow> OntologyClass list" where
  "sort_by_label lc arr = Sorting_Algorithms.sort (key label lc) arr"

text \<open>Line 34.\<close>

definition owlClasses :: "document \<Rightarrow> node list" where
  "owlClasses xmlDoc = document_getElementsByTagName xmlDoc ''owl:Class''"

text \<open>The body of \<^verbatim>\<open>parseOWL\<close> from line 29 on, on the document that the
  \<^verbatim>\<open>DOMParser\<close> returned.\<close>

definition parseOWL_doc :: "string comparator \<Rightarrow> document \<Rightarrow> error + OntologyData" where
  "parseOWL_doc lc xmlDoc =
     (case owlClasses_loop (owlClasses xmlDoc) ([], [], []) of
        Inl err \<Rightarrow> Inl err
      | Inr (cm0, parentChildMap, childParentMap) \<Rightarrow>
          (let cm = build_arrays parentChildMap childParentMap cm0;
               rs = find_roots cm;
               sortedRoots =
                 (if length rs > 0 then sort_by_label lc rs
                  else sort_by_label lc (take 10 (Map_values cm)))
           in Inr \<lparr>classMap = cm, roots = sortedRoots\<rparr>))"


subsection \<open>\<^verbatim>\<open>getChildNodes\<close> and \<^verbatim>\<open>hasMatchingChild\<close>\<close>

text \<open>Both close over the component's state \<^verbatim>\<open>ontologyData\<close>, which is
  \<^verbatim>\<open>null\<close> until a file has been loaded; it is an explicit argument here.\<close>

definition getChildNodes :: "string comparator \<Rightarrow> OntologyData option \<Rightarrow> string
    \<Rightarrow> OntologyClass list" where
  "getChildNodes lc ontologyData nodeId =
     (case ontologyData of
        None \<Rightarrow> []
      | Some d \<Rightarrow>
          (case Map_get (classMap d) nodeId of
             None \<Rightarrow> []
           | Some node \<Rightarrow>
               sort_by_label lc
                 (map the
                    (filter (\<lambda>child. child \<noteq> None)
                       (map (\<lambda>childId. Map_get (classMap d) childId) (children node))))))"

text \<open>\<^verbatim>\<open>Array.prototype.some\<close> with a callback that may not return: the callback
  is called on the elements in order until one call returns \<^verbatim>\<open>true\<close>.\<close>

fun array_some :: "('a \<Rightarrow> bool option) \<Rightarrow> 'a list \<Rightarrow> bool option" where
  "array_some f [] = Some False"
| "array_some f (x # xs) =
     Option.bind (f x) (\<lambda>b. if b then Some True else array_some f xs)"

lemma array_some_mono [partial_function_mono]:
  assumes "\<And>x. mono_option (\<lambda>f. F f x)"
  shows "mono_option (\<lambda>f. array_some (F f) xs)"
proof (induction xs)
  case Nil
  show ?case by (simp add: option.const_mono)
next
  case (Cons x xs)
  show ?case
    unfolding array_some.simps
    by (intro bind_mono assms if_mono option.const_mono Cons.IH)
qed

text \<open>\<^verbatim>\<open>hasMatchingChild\<close> recurses along \<^verbatim>\<open>children\<close> with nothing that bounds
  the descent, so it is a partial function: \<open>None\<close> is a call that does not return a
  boolean (in a browser the endless recursion is cut off by a \<^verbatim>\<open>RangeError\<close> when the
  call stack is exhausted).\<close>

partial_function (option) hasMatchingChild :: "OntologyData option \<Rightarrow> string \<Rightarrow> string
    \<Rightarrow> bool option" where
  "hasMatchingChild ontologyData nodeId term =
     (case Option.bind ontologyData (\<lambda>d. Map_get (classMap d) nodeId) of
        None \<Rightarrow> Some False
      | Some node \<Rightarrow>
          if includes_str (toLowerCase (label node)) (toLowerCase term) then Some True
          else array_some (\<lambda>childId. hasMatchingChild ontologyData childId term)
                 (children node))"

declare hasMatchingChild.simps [code]

section \<open>Notions for the statements\<close>

subsection \<open>Declarations, edges and entries\<close>

text \<open>\<^verbatim>\<open>map.get(key) || []\<close>.\<close>

definition lookup_arr :: "('k, 'a list) Map \<Rightarrow> 'k \<Rightarrow> 'a list" where
  "lookup_arr m k = js_or_empty (Map_get m k)"

text \<open>The children and the parents that a list of recorded (child, parent) edges gives an
  identifier, in the order of recording and with repetitions.\<close>

definition children_in :: "(string \<times> string) list \<Rightarrow> string \<Rightarrow> string list" where
  "children_in es p = map fst (filter (\<lambda>e. snd e = p) es)"

definition parents_in :: "(string \<times> string) list \<Rightarrow> string \<Rightarrow> string list" where
  "parents_in es c = map snd (filter (\<lambda>e. fst e = c) es)"

text \<open>
  The parent that one \<^verbatim>\<open>rdfs:subClassOf\<close> element names (line 54 and the test of
  line 55), and the parents that the inner loop pushes for one class element: those named
  by its \<^verbatim>\<open>rdfs:subClassOf\<close> descendants at any depth, in document order, also the ones
  that stand inside a class element nested in it.
\<close>

definition resource_of :: "node \<Rightarrow> string list" where
  "resource_of e =
     (case getAttribute e ''rdf:resource'' of None \<Rightarrow> [] | Some p \<Rightarrow> if p = [] then [] else [p])"

definition parent_refs :: "node \<Rightarrow> string list" where
  "parent_refs cls = concat (map resource_of (getElementsByTagName cls ''rdfs:subClassOf''))"

text \<open>The identifier under which a class element is indexed: none when the test of line 39
  fails.\<close>

definition indexed_id :: "node \<Rightarrow> string list" where
  "indexed_id cls = (case class_id cls of None \<Rightarrow> [] | Some i \<Rightarrow> if i = [] then [] else [i])"

text \<open>The class elements that are indexed, with their identifiers, in document order.\<close>

definition declared :: "node list \<Rightarrow> (string \<times> node) list" where
  "declared cs = concat (map (\<lambda>cls. map (\<lambda>i. (i, cls)) (indexed_id cls)) cs)"

text \<open>The class elements that carry the identifier \<open>i\<close>, in document order.\<close>

definition declarations_of :: "node list \<Rightarrow> string \<Rightarrow> node list" where
  "declarations_of cs i = filter (\<lambda>cls. indexed_id cls = [i]) cs"

text \<open>
  The (child, parent) pairs that the two loops push, in the order of pushing: one pair for
  every class element with an identifier and every \<^verbatim>\<open>rdfs:subClassOf\<close> element with a
  non-empty \<^verbatim>\<open>rdf:resource\<close> found anywhere below it.  \<^verbatim>\<open>getElementsByTagName\<close>
  descends to any depth, so a \<^verbatim>\<open>rdfs:subClassOf\<close> element written inside a nested class
  element gives a pair for the nested class and one for every class element that encloses
  it.  This list is a device of the proofs; the statements of the claims speak of
  \<open>declarations_of\<close> and \<open>parent_refs\<close>.
\<close>

definition subclass_edges :: "node list \<Rightarrow> (string \<times> string) list" where
  "subclass_edges cs = concat (map (\<lambda>d. map (Pair (fst d)) (parent_refs (snd d))) (declared cs))"

text \<open>The object of lines 43 to 49, and the class map after the \<^verbatim>\<open>set\<close> calls for a list
  of declarations.\<close>

definition new_class :: "string \<Rightarrow> node \<Rightarrow> OntologyClass" where
  "new_class i cls =
     \<lparr>id' = i, label = class_label cls i, description = class_description cls,
      children = [], parents = []\<rparr>"

definition set_all :: "(string \<times> node) list \<Rightarrow> (string, OntologyClass) Map
    \<Rightarrow> (string, OntologyClass) Map" where
  "set_all ds cm = fold (\<lambda>d m. Map_set m (fst d) (new_class (fst d) (snd d))) ds cm"

text \<open>The elements of a list in the order of their first occurrence.\<close>

fun first_occurrences :: "'a list \<Rightarrow> 'a list" where
  "first_occurrences [] = []"
| "first_occurrences (x # xs) = x # filter (\<lambda>y. y \<noteq> x) (first_occurrences xs)"

text \<open>What the class map holds under \<open>i\<close> for a document with the class elements \<open>cs\<close>.\<close>

definition entry_of :: "node list \<Rightarrow> string \<Rightarrow> OntologyClass option" where
  "entry_of cs i =
     (case map_of (rev (declared cs)) i of
        None \<Rightarrow> None
      | Some cls \<Rightarrow>
          Some \<lparr>id' = i, label = class_label cls i, description = class_description cls,
                children = children_in (subclass_edges cs) i,
                parents = parents_in (subclass_edges cs) i\<rparr>)"

text \<open>The classes that become roots, before sorting: the parentless ones, or the first ten
  of the map when there is none.\<close>

definition top_level :: "(string, OntologyClass) Map \<Rightarrow> OntologyClass list" where
  "top_level cm =
     (if filter (\<lambda>node. parents node = []) (Map_values cm) \<noteq> []
      then filter (\<lambda>node. parents node = []) (Map_values cm)
      else take 10 (Map_values cm))"

text \<open>The children of a node that resolve through the class map, in the order of the
  node's \<open>children\<close> array.\<close>

definition resolved_children :: "OntologyData \<Rightarrow> OntologyClass \<Rightarrow> OntologyClass list" where
  "resolved_children d node =
     concat (map (\<lambda>childId. case Map_get (classMap d) childId of None \<Rightarrow> [] | Some c \<Rightarrow> [c])
       (children node))"

subsection \<open>The fallback label, in the words of the specification\<close>

text \<open>Splitting on any of several one-character separators at once.\<close>

fun split_any :: "char list \<Rightarrow> string \<Rightarrow> string list" where
  "split_any seps [] = [[]]"
| "split_any seps (c # cs) =
     (if c \<in> set seps then [] # split_any seps cs
      else (case split_any seps cs of [] \<Rightarrow> [[c]] | s # ss \<Rightarrow> (c # s) # ss))"

text \<open>The final segment of an identifier split on \<open>#\<close> and \<open>/\<close>: what stands after
  the last separator.\<close>

definition final_segment :: "string \<Rightarrow> string" where
  "final_segment i = last (split_any ''#/'' i)"

text \<open>The specification's reading: the final one among the non-empty segments, and the
  raw identifier only when there is none.\<close>

definition final_nonempty_segment :: "string \<Rightarrow> string option" where
  "final_nonempty_segment i =
     (case filter (\<lambda>s. s \<noteq> []) (split_any ''#/'' i) of
        [] \<Rightarrow> None
      | s # ss \<Rightarrow> Some (last (s # ss)))"

definition spec_fallback_label :: "string \<Rightarrow> string" where
  "spec_fallback_label i = (case final_nonempty_segment i of None \<Rightarrow> i | Some s \<Rightarrow> s)"

subsection \<open>Reachability along \<open>children\<close>\<close>

text \<open>\<open>reaches d n m\<close>: the class \<open>m\<close> is \<open>n\<close> itself or is reached from \<open>n\<close> by following
  \<open>children\<close> entries through classes of the map.\<close>

inductive reaches :: "OntologyData \<Rightarrow> string \<Rightarrow> string \<Rightarrow> bool" for d :: OntologyData where
  reaches_self: "Map_get (classMap d) n = Some node \<Longrightarrow> reaches d n n"
| reaches_child: "Map_get (classMap d) n = Some node \<Longrightarrow> c \<in> set (children node) \<Longrightarrow>
    reaches d c m \<Longrightarrow> reaches d n m"

text \<open>The label of the class \<open>m\<close> contains the term, up to case.\<close>

definition label_matches :: "OntologyData \<Rightarrow> string \<Rightarrow> string \<Rightarrow> bool" where
  "label_matches d m t =
     (case Map_get (classMap d) m of
        None \<Rightarrow> False
      | Some node \<Rightarrow> includes_str (toLowerCase (label node)) (toLowerCase t))"

subsection \<open>Example documents\<close>

text \<open>A class element with the given attributes, labels and parents.\<close>

definition owl_class :: "(string \<times> string) list \<Rightarrow> string list \<Rightarrow> string list \<Rightarrow> node" where
  "owl_class attrs labels ps =
     Element ''owl:Class'' attrs
       (map (\<lambda>l. Element ''rdfs:label'' [] [Text l]) labels @
        map (\<lambda>p. Element ''rdfs:subClassOf'' [(''rdf:resource'', p)] []) ps)"

definition doc_tree :: document where
  "doc_tree = Document [Element ''rdf:RDF'' []
     [owl_class [(''rdf:about'', ''A'')] [''Bravo''] [],
      owl_class [(''rdf:about'', ''C'')] [''Charlie''] [''A''],
      owl_class [] [''Nameless''] [''A''],
      owl_class [(''rdf:ID'', ''B'')] [''Alpha''] [''A'']]]"

definition index_tree :: OntologyData where
  "index_tree =
     \<lparr>classMap =
        [(''A'', \<lparr>id' = ''A'', label = ''Bravo'', description = [], children = [''C'', ''B''], parents = []\<rparr>),
         (''C'', \<lparr>id' = ''C'', label = ''Charlie'', description = [], children = [], parents = [''A'']\<rparr>),
         (''B'', \<lparr>id' = ''B'', label = ''Alpha'', description = [], children = [], parents = [''A'']\<rparr>)],
      roots = [\<lparr>id' = ''A'', label = ''Bravo'', description = [], children = [''C'', ''B''], parents = []\<rparr>]\<rparr>"

text \<open>A class that declares the same parent twice.\<close>

definition doc_dup_edge :: document where
  "doc_dup_edge = Document [Element ''rdf:RDF'' []
     [owl_class [(''rdf:about'', ''A'')] [''Animal''] [],
      owl_class [(''rdf:about'', ''C'')] [''Cat''] [''A'', ''A'']]]"

definition index_dup_edge :: OntologyData where
  "index_dup_edge =
     \<lparr>classMap =
        [(''A'', \<lparr>id' = ''A'', label = ''Animal'', description = [], children = [''C'', ''C''], parents = []\<rparr>),
         (''C'', \<lparr>id' = ''C'', label = ''Cat'', description = [], children = [], parents = [''A'', ''A'']\<rparr>)],
      roots = [\<lparr>id' = ''A'', label = ''Animal'', description = [], children = [''C'', ''C''], parents = []\<rparr>]\<rparr>"

text \<open>A class \<open>C\<close> with a class \<open>D\<close> nested in it; each names the parent \<open>A\<close> once.\<close>

definition doc_nested :: document where
  "doc_nested = Document [Element ''rdf:RDF'' []
     [owl_class [(''rdf:about'', ''A'')] [''Animal''] [],
      Element ''owl:Class'' [(''rdf:about'', ''C'')]
        [Element ''rdfs:label'' [] [Text ''Cat''],
         Element ''rdfs:subClassOf'' [(''rdf:resource'', ''A'')] [],
         owl_class [(''rdf:about'', ''D'')] [''Dog''] [''A'']]]]"

definition index_nested :: OntologyData where
  "index_nested =
     \<lparr>classMap =
        [(''A'', \<lparr>id' = ''A'', label = ''Animal'', description = [], children = [''C'', ''C'', ''D''],
                  parents = []\<rparr>),
         (''C'', \<lparr>id' = ''C'', label = ''Cat'', description = [], children = [], parents = [''A'', ''A'']\<rparr>),
         (''D'', \<lparr>id' = ''D'', label = ''Dog'', description = [], children = [], parents = [''A'']\<rparr>)],
      roots =
        [\<lparr>id' = ''A'', label = ''Animal'', description = [], children = [''C'', ''C'', ''D''],
           parents = []\<rparr>]\<rparr>"

text \<open>Two declarations of \<open>X\<close>, with different labels, comments and parents; the
  second label has its text in pieces around a comment.\<close>

definition doc_dup_id :: document where
  "doc_dup_id = Document [Element ''rdf:RDF'' []
     [owl_class [(''rdf:about'', ''P'')] [''Plant''] [],
      Element ''owl:Class'' [(''rdf:about'', ''X'')]
        [Element ''rdfs:label'' [] [Text ''Old''],
         Element ''rdfs:comment'' [] [Text ''first''],
         Element ''rdfs:subClassOf'' [(''rdf:resource'', ''P'')] []],
      owl_class [(''rdf:about'', ''Q'')] [''Quartz''] [],
      Element ''owl:Class'' [(''rdf:about'', ''X'')]
        [Element ''rdfs:label'' [] [Text ''Ne'', Comment ''draft'', Element ''b'' [] [Text ''w'']],
         Element ''rdfs:comment'' [] [Text ''second''],
         Element ''rdfs:subClassOf'' [(''rdf:resource'', ''Q'')] []]]]"

definition index_dup_id :: OntologyData where
  "index_dup_id =
     \<lparr>classMap =
        [(''P'', \<lparr>id' = ''P'', label = ''Plant'', description = [], children = [''X''], parents = []\<rparr>),
         (''X'', \<lparr>id' = ''X'', label = ''New'', description = ''second'', children = [],
                  parents = [''P'', ''Q'']\<rparr>),
         (''Q'', \<lparr>id' = ''Q'', label = ''Quartz'', description = [], children = [''X''], parents = []\<rparr>)],
      roots =
        [\<lparr>id' = ''P'', label = ''Plant'', description = [], children = [''X''], parents = []\<rparr>,
         \<lparr>id' = ''Q'', label = ''Quartz'', description = [], children = [''X''], parents = []\<rparr>]\<rparr>"

text \<open>A class without label whose identifier ends in \<open>/\<close>.\<close>

definition doc_slash :: document where
  "doc_slash = Document [Element ''rdf:RDF'' []
     [owl_class [(''rdf:about'', ''http://x.org/foo/'')] [] [],
      owl_class [(''rdf:about'', ''http://x.org/onto#Cell'')] [] []]]"

definition index_slash :: OntologyData where
  "index_slash =
     \<lparr>classMap =
        [(''http://x.org/foo/'',
          \<lparr>id' = ''http://x.org/foo/'', label = ''http://x.org/foo/'', description = [],
           children = [], parents = []\<rparr>),
         (''http://x.org/onto#Cell'',
          \<lparr>id' = ''http://x.org/onto#Cell'', label = ''Cell'', description = [],
           children = [], parents = []\<rparr>)],
      roots =
        [\<lparr>id' = ''http://x.org/onto#Cell'', label = ''Cell'', description = [],
           children = [], parents = []\<rparr>,
         \<lparr>id' = ''http://x.org/foo/'', label = ''http://x.org/foo/'', description = [],
           children = [], parents = []\<rparr>]\<rparr>"

text \<open>Two classes, each the parent of the other.\<close>

definition doc_cycle :: document where
  "doc_cycle = Document [Element ''rdf:RDF'' []
     [owl_class [(''rdf:about'', ''B'')] [''Beta''] [''A''],
      owl_class [(''rdf:about'', ''A'')] [''Alpha''] [''B'']]]"

definition index_cycle :: OntologyData where
  "index_cycle =
     \<lparr>classMap =
        [(''B'', \<lparr>id' = ''B'', label = ''Beta'', description = [], children = [''A''], parents = [''A'']\<rparr>),
         (''A'', \<lparr>id' = ''A'', label = ''Alpha'', description = [], children = [''B''], parents = [''B'']\<rparr>)],
      roots =
        [\<lparr>id' = ''A'', label = ''Alpha'', description = [], children = [''B''], parents = [''B'']\<rparr>,
         \<lparr>id' = ''B'', label = ''Beta'', description = [], children = [''A''], parents = [''A'']\<rparr>]\<rparr>"

text \<open>A cycle between \<open>A\<close> and \<open>B\<close>, and a third class \<open>C\<close> below \<open>A\<close>, declared after
  \<open>B\<close>, whose label contains the search term \<open>metab\<close>.\<close>

definition doc_cycle_match :: document where
  "doc_cycle_match = Document [Element ''rdf:RDF'' []
     [owl_class [(''rdf:about'', ''B'')] [''Beta''] [''A''],
      owl_class [(''rdf:about'', ''C'')] [''Metabolic Process''] [''A''],
      owl_class [(''rdf:about'', ''A'')] [''Alpha''] [''B'']]]"

definition index_cycle_match :: OntologyData where
  "index_cycle_match =
     \<lparr>classMap =
        [(''B'', \<lparr>id' = ''B'', label = ''Beta'', description = [], children = [''A''], parents = [''A'']\<rparr>),
         (''C'', \<lparr>id' = ''C'', label = ''Metabolic Process'', description = [], children = [],
                  parents = [''A'']\<rparr>),
         (''A'', \<lparr>id' = ''A'', label = ''Alpha'', description = [], children = [''B'', ''C''],
                  parents = [''B'']\<rparr>)],
      roots =
        [\<lparr>id' = ''A'', label = ''Alpha'', description = [], children = [''B'', ''C''], parents = [''B'']\<rparr>,
         \<lparr>id' = ''B'', label = ''Beta'', description = [], children = [''A''], parents = [''A'']\<rparr>,
         \<lparr>id' = ''C'', label = ''Metabolic Process'', description = [], children = [],
            parents = [''A'']\<rparr>]\<rparr>"

subsection \<open>Two small XML readers\<close>














text \<open>
  \<^verbatim>\<open>DOMParser.parseFromString\<close> as the HTML standard has it, over any XML parser
  \<open>xml_parser\<close> that answers \<open>None\<close> for text that is not well-formed: such text gives a
  document whose only element is \<^verbatim>\<open>parsererror\<close>.
\<close>

text \<open>The element with which a parser reports text that is not well-formed; it quotes the
  text.\<close>

definition parsererror_element :: "string \<Rightarrow> node" where
  "parsererror_element xmlText =
     Element ''parsererror''
       [(''xmlns'', ''http://www.mozilla.org/newlayout/xml/parsererror.xml'')]
       [Text ''XML Parsing Error'', Element ''sourcetext'' [] [Text xmlText]]"

definition parsererror_document :: "string \<Rightarrow> document" where
  "parsererror_document xmlText = Document [parsererror_element xmlText]"







section \<open>Properties of the model\<close>

subsection \<open>The loops of \<^verbatim>\<open>parseOWL\<close>\<close>

lemma map_of_Map_set: "map_of (Map_set m k v) = (map_of m)(k \<mapsto> v)"
  by (induction m) (auto simp: fun_eq_iff)

lemma keys_Map_set:
  "map fst (Map_set m k v) = (if k \<in> set (map fst m) then map fst m else map fst m @ [k])"
  by (induction m) force+

lemma Map_push_Inr:
  "\<exists>m'. Map_push m k v = Inr m' \<and> lookup_arr m' = (lookup_arr m)(k := lookup_arr m k @ [v])"
  by (auto simp: Map_push_def Map_has_def Map_get_def Let_def map_of_Map_set lookup_arr_def
      js_or_empty_def fun_eq_iff)

lemma children_in_append [simp]: "children_in (xs @ ys) p = children_in xs p @ children_in ys p"
  by (simp add: children_in_def)

lemma parents_in_append [simp]: "parents_in (xs @ ys) p = parents_in xs p @ parents_in ys p"
  by (simp add: parents_in_def)

lemma children_in_Nil [simp]: "children_in [] p = []"
  by (simp add: children_in_def)

lemma parents_in_Nil [simp]: "parents_in [] p = []"
  by (simp add: parents_in_def)

lemma subClassOf_loop_Inr:
  "\<exists>pc' cp'. subClassOf_loop i es (pc, cp) = Inr (pc', cp') \<and>
     lookup_arr pc' = (\<lambda>p. lookup_arr pc p @ children_in (map (Pair i) (concat (map resource_of es))) p) \<and>
     lookup_arr cp' = (\<lambda>c. lookup_arr cp c @ parents_in (map (Pair i) (concat (map resource_of es))) c)"
proof (induction es arbitrary: pc cp)
  case Nil
  show ?case by simp
next
  case (Cons e es)
  show ?case
  proof (cases "resource_of e")
    case Nil
    then show ?thesis
      using Cons.IH [of pc cp]
      by (auto simp: resource_of_def split: option.splits if_splits)
  next
    case (Cons p ps)
    then have e: "getAttribute e ''rdf:resource'' = Some p" "p \<noteq> []" "resource_of e = [p]"
      by (auto simp: resource_of_def split: option.splits if_splits)
    obtain pc1 where pc1: "Map_push pc p i = Inr pc1"
      "lookup_arr pc1 = (lookup_arr pc)(p := lookup_arr pc p @ [i])"
      using Map_push_Inr [of pc p i] by blast
    obtain cp1 where cp1: "Map_push cp i p = Inr cp1"
      "lookup_arr cp1 = (lookup_arr cp)(i := lookup_arr cp i @ [p])"
      using Map_push_Inr [of cp i p] by blast
    from Cons.IH [of pc1 cp1] obtain pc' cp' where
      r: "subClassOf_loop i es (pc1, cp1) = Inr (pc', cp')"
      "lookup_arr pc' = (\<lambda>q. lookup_arr pc1 q @ children_in (map (Pair i) (concat (map resource_of es))) q)"
      "lookup_arr cp' = (\<lambda>c. lookup_arr cp1 c @ parents_in (map (Pair i) (concat (map resource_of es))) c)"
      by blast
    have "subClassOf_loop i (e # es) (pc, cp) = Inr (pc', cp')"
      using e pc1 cp1 r by simp
    moreover have "lookup_arr pc' = (\<lambda>q. lookup_arr pc q @ children_in (map (Pair i) (concat (map resource_of (e # es)))) q)"
      using r(2) pc1(2) e(3) by (auto simp: fun_eq_iff children_in_def)
    moreover have "lookup_arr cp' = (\<lambda>c. lookup_arr cp c @ parents_in (map (Pair i) (concat (map resource_of (e # es)))) c)"
      using r(3) cp1(2) e(3) by (auto simp: fun_eq_iff parents_in_def)
    ultimately show ?thesis by blast
  qed
qed

lemma declared_Nil [simp]: "declared [] = []"
  by (simp add: declared_def)

lemma declared_Cons:
  "declared (cls # cs) = map (\<lambda>i. (i, cls)) (indexed_id cls) @ declared cs"
  by (simp add: declared_def)

lemma subclass_edges_Nil [simp]: "subclass_edges [] = []"
  by (simp add: subclass_edges_def)

lemma subclass_edges_Cons:
  "subclass_edges (cls # cs) =
     concat (map (\<lambda>i. map (Pair i) (parent_refs cls)) (indexed_id cls)) @ subclass_edges cs"
  by (simp add: subclass_edges_def declared_Cons o_def)

lemma owlClasses_loop_Inr:
  "\<exists>pc' cp'. owlClasses_loop cs (cm, pc, cp) = Inr (set_all (declared cs) cm, pc', cp') \<and>
     lookup_arr pc' = (\<lambda>p. lookup_arr pc p @ children_in (subclass_edges cs) p) \<and>
     lookup_arr cp' = (\<lambda>c. lookup_arr cp c @ parents_in (subclass_edges cs) c)"
proof (induction cs arbitrary: cm pc cp)
  case Nil
  show ?case by (simp add: set_all_def)
next
  case (Cons cls cs)
  show ?case
  proof (cases "indexed_id cls")
    case Nil
    then have "owlClasses_loop (cls # cs) (cm, pc, cp) = owlClasses_loop cs (cm, pc, cp)"
      by (auto simp: indexed_id_def split: option.splits if_splits)
    with Nil Cons.IH [of cm pc cp] show ?thesis
      by (simp add: declared_Cons subclass_edges_Cons)
  next
    case (Cons i js)
    then have i: "class_id cls = Some i" "i \<noteq> []" "indexed_id cls = [i]"
      by (auto simp: indexed_id_def split: option.splits if_splits)
    obtain pc1 cp1 where
      s: "subClassOf_loop i (getElementsByTagName cls ''rdfs:subClassOf'') (pc, cp) = Inr (pc1, cp1)"
      "lookup_arr pc1 = (\<lambda>p. lookup_arr pc p @ children_in (map (Pair i) (parent_refs cls)) p)"
      "lookup_arr cp1 = (\<lambda>c. lookup_arr cp c @ parents_in (map (Pair i) (parent_refs cls)) c)"
      using subClassOf_loop_Inr [of i "getElementsByTagName cls ''rdfs:subClassOf''" pc cp]
      unfolding parent_refs_def by blast
    from Cons.IH [of "Map_set cm i (new_class i cls)" pc1 cp1] obtain pc' cp' where
      r: "owlClasses_loop cs (Map_set cm i (new_class i cls), pc1, cp1) =
            Inr (set_all (declared cs) (Map_set cm i (new_class i cls)), pc', cp')"
      "lookup_arr pc' = (\<lambda>p. lookup_arr pc1 p @ children_in (subclass_edges cs) p)"
      "lookup_arr cp' = (\<lambda>c. lookup_arr cp1 c @ parents_in (subclass_edges cs) c)"
      by blast
    have "owlClasses_loop (cls # cs) (cm, pc, cp) = Inr (set_all (declared (cls # cs)) cm, pc', cp')"
      using i s(1) r(1) by (simp add: declared_Cons set_all_def new_class_def)
    moreover have "lookup_arr pc' = (\<lambda>p. lookup_arr pc p @ children_in (subclass_edges (cls # cs)) p)"
      using r(2) s(2) i(3) by (simp add: subclass_edges_Cons)
    moreover have "lookup_arr cp' = (\<lambda>c. lookup_arr cp c @ parents_in (subclass_edges (cls # cs)) c)"
      using r(3) s(3) i(3) by (simp add: subclass_edges_Cons)
    ultimately show ?thesis by blast
  qed
qed

lemma filter_first_occurrences:
  "filter P (first_occurrences xs) = first_occurrences (filter P xs)"
proof (induction xs)
  case Nil
  show ?case by simp
next
  case (Cons x xs)
  have "filter P (filter (\<lambda>y. y \<noteq> x) (first_occurrences xs)) =
        filter (\<lambda>y. y \<noteq> x) (filter P (first_occurrences xs))"
    by (simp add: conj_commute)
  moreover have "\<not> P x \<Longrightarrow> filter (\<lambda>y. y \<noteq> x) (filter P (first_occurrences xs)) = filter P (first_occurrences xs)"
    by (auto intro!: filter_cong simp del: filter_filter simp: filter_id_conv)
  ultimately show ?case using Cons.IH by simp
qed

lemma set_first_occurrences [simp]: "set (first_occurrences xs) = set xs"
  by (induction xs) auto

lemma distinct_first_occurrences [simp]: "distinct (first_occurrences xs)"
  by (induction xs) auto

lemma keys_set_all:
  "map fst (set_all ds cm) =
     map fst cm @ first_occurrences (filter (\<lambda>i. i \<notin> set (map fst cm)) (map fst ds))"
proof (induction ds arbitrary: cm)
  case Nil
  show ?case by (simp add: set_all_def)
next
  case (Cons d ds)
  have step: "set_all (d # ds) cm = set_all ds (Map_set cm (fst d) (new_class (fst d) (snd d)))"
    by (simp add: set_all_def)
  show ?case
  proof (cases "fst d \<in> set (map fst cm)")
    case True
    then show ?thesis
      unfolding step Cons.IH by (simp add: keys_Map_set)
  next
    case False
    have "filter (\<lambda>i. i \<noteq> fst d \<and> i \<notin> fst ` set cm) (map fst ds) =
          filter (\<lambda>y. y \<noteq> fst d) (filter (\<lambda>i. i \<notin> fst ` set cm) (map fst ds))"
      by (simp add: conj_commute)
    with False show ?thesis
      unfolding step Cons.IH
      by (simp add: keys_Map_set filter_first_occurrences del: filter_filter)
  qed
qed

lemma map_of_set_all:
  "map_of (set_all ds cm) i =
     (case map_of (rev ds) i of None \<Rightarrow> map_of cm i | Some cls \<Rightarrow> Some (new_class i cls))"
proof (induction ds arbitrary: cm)
  case Nil
  show ?case by (simp add: set_all_def)
next
  case (Cons d ds)
  have step: "set_all (d # ds) cm = set_all ds (Map_set cm (fst d) (new_class (fst d) (snd d)))"
    by (simp add: set_all_def)
  show ?case
    unfolding step Cons.IH
    by (cases d) (auto simp: map_of_Map_set map_add_def split: option.splits)
qed

lemma keys_build_arrays [simp]: "map fst (build_arrays pc cp cm) = map fst cm"
  by (induction cm) (auto simp: build_arrays_def)

lemma map_of_build_arrays:
  "map_of (build_arrays pc cp cm) i =
     map_option (\<lambda>node. node\<lparr>children := lookup_arr pc i, parents := lookup_arr cp i\<rparr>) (map_of cm i)"
  by (induction cm) (auto simp: build_arrays_def lookup_arr_def)

lemma fold_push_filter:
  "fold (\<lambda>x rs. if P x then rs @ [x] else rs) xs acc = acc @ filter P xs"
  by (induction xs arbitrary: acc) auto

lemma find_roots_filter:
  "find_roots cm = filter (\<lambda>node. parents node = []) (Map_values cm)"
  using fold_push_filter [of "\<lambda>node. parents node = []" "Map_values cm" "[]"]
  by (simp add: find_roots_def)

lemma parseOWL_doc_Inr:
  "\<exists>data. parseOWL_doc lc xmlDoc = Inr data \<and>
     map fst (classMap data) = first_occurrences (map fst (declared (owlClasses xmlDoc))) \<and>
     (\<forall>i. Map_get (classMap data) i = entry_of (owlClasses xmlDoc) i) \<and>
     roots data = sort_by_label lc (top_level (classMap data))"
proof -
  let ?cs = "owlClasses xmlDoc"
  obtain pc cp where
    l: "owlClasses_loop ?cs ([], [], []) = Inr (set_all (declared ?cs) [], pc, cp)"
    "lookup_arr pc = (\<lambda>p. lookup_arr [] p @ children_in (subclass_edges ?cs) p)"
    "lookup_arr cp = (\<lambda>c. lookup_arr [] c @ parents_in (subclass_edges ?cs) c)"
    using owlClasses_loop_Inr [of ?cs "[]" "[]" "[]"] by blast
  have pc: "lookup_arr pc = children_in (subclass_edges ?cs)"
    and cp: "lookup_arr cp = parents_in (subclass_edges ?cs)"
    using l(2,3) by (simp_all add: lookup_arr_def Map_get_def js_or_empty_def)
  let ?cm = "build_arrays pc cp (set_all (declared ?cs) [])"
  let ?data = "\<lparr>classMap = ?cm, roots = sort_by_label lc (top_level ?cm)\<rparr>"
  have "parseOWL_doc lc xmlDoc = Inr ?data"
    using l(1) by (simp add: parseOWL_doc_def owlClasses_def Let_def find_roots_filter top_level_def)
  moreover have "map fst (classMap ?data) = first_occurrences (map fst (declared ?cs))"
    by (simp add: keys_set_all)
  moreover have "Map_get (classMap ?data) i = entry_of ?cs i" for i
    by (simp add: Map_get_def map_of_build_arrays map_of_set_all pc cp entry_of_def new_class_def
        split: option.splits)
  moreover have "roots ?data = sort_by_label lc (top_level (classMap ?data))"
    by simp
  ultimately show ?thesis by blast
qed

lemma parseOWL_doc_never_throws: "parseOWL_doc lc xmlDoc \<noteq> Inl err"
  using parseOWL_doc_Inr [of lc xmlDoc] by auto

lemma parseOWL_doc_keys:
  "parseOWL_doc lc xmlDoc = Inr data \<Longrightarrow>
     map fst (classMap data) = first_occurrences (map fst (declared (owlClasses xmlDoc)))"
  using parseOWL_doc_Inr [of lc xmlDoc] by auto

lemma parseOWL_doc_get:
  "parseOWL_doc lc xmlDoc = Inr data \<Longrightarrow> Map_get (classMap data) i = entry_of (owlClasses xmlDoc) i"
  using parseOWL_doc_Inr [of lc xmlDoc] by auto

lemma parseOWL_doc_roots:
  "parseOWL_doc lc xmlDoc = Inr data \<Longrightarrow> roots data = sort_by_label lc (top_level (classMap data))"
  using parseOWL_doc_Inr [of lc xmlDoc] by auto

lemma parseOWL_doc_distinct:
  "parseOWL_doc lc xmlDoc = Inr data \<Longrightarrow> distinct (map fst (classMap data))"
  by (simp add: parseOWL_doc_keys)

lemma Map_values_get:
  "distinct (map fst m) \<Longrightarrow> c \<in> set (Map_values m) \<longleftrightarrow> (\<exists>i. Map_get m i = Some c)"
  by (force simp: Map_values_def Map_get_def)

subsection \<open>The entries of the class map\<close>

lemma entry_of_SomeD:
  "entry_of cs i = Some c \<Longrightarrow>
     id' c = i \<and> children c = children_in (subclass_edges cs) i \<and>
     parents c = parents_in (subclass_edges cs) i"
  by (auto simp: entry_of_def split: option.splits)

lemma entry_of_declared: "entry_of cs i \<noteq> None \<longleftrightarrow> i \<in> fst ` set (declared cs)"
proof -
  have "map_of (rev (declared cs)) i \<noteq> None \<longleftrightarrow> i \<in> fst ` set (rev (declared cs))"
    by (metis map_of_eq_None_iff)
  then show ?thesis
    by (auto simp: entry_of_def split: option.splits)
qed

lemma subclass_edges_child_declared:
  "(c, p) \<in> set (subclass_edges cs) \<Longrightarrow> c \<in> fst ` set (declared cs)"
  by (force simp: subclass_edges_def)

lemma in_children_in: "c \<in> set (children_in es p) \<longleftrightarrow> (c, p) \<in> set es"
  by (force simp: children_in_def)

lemma in_parents_in: "p \<in> set (parents_in es c) \<longleftrightarrow> (c, p) \<in> set es"
  by (force simp: parents_in_def)

lemma parsed_value_entry:
  assumes "parseOWL_doc lc xmlDoc = Inr data" and "c \<in> set (Map_values (classMap data))"
  shows "entry_of (owlClasses xmlDoc) (id' c) = Some c"
proof -
  from assms obtain i where "Map_get (classMap data) i = Some c"
    using Map_values_get [OF parseOWL_doc_distinct [OF assms(1)]] by blast
  then have "entry_of (owlClasses xmlDoc) i = Some c"
    using parseOWL_doc_get [OF assms(1)] by simp
  then show ?thesis
    using entry_of_SomeD by blast
qed

lemma count_children_in: "count_list (children_in es p) c = count_list es (c, p)"
  by (induction es) (auto simp: children_in_def)

lemma count_parents_in: "count_list (parents_in es c) p = count_list es (c, p)"
  by (induction es) (auto simp: parents_in_def)

lemma distinct_children_in: "distinct es \<Longrightarrow> distinct (children_in es p)"
  unfolding children_in_def by (auto simp: distinct_map inj_on_def)

lemma distinct_parents_in: "distinct es \<Longrightarrow> distinct (parents_in es c)"
  unfolding parents_in_def by (auto simp: distinct_map inj_on_def)

lemma indexed_id_cases:
  obtains "indexed_id cls = []" | j where "indexed_id cls = [j]" "j \<noteq> []"
proof (cases "class_id cls")
  case None
  then have "indexed_id cls = []" by (simp add: indexed_id_def)
  then show ?thesis by (rule that(1))
next
  case (Some a)
  show ?thesis
  proof (cases "a = []")
    case True
    with Some have "indexed_id cls = []" by (simp add: indexed_id_def)
    then show ?thesis by (rule that(1))
  next
    case False
    with Some have "indexed_id cls = [a]" by (simp add: indexed_id_def)
    then show ?thesis using False by (rule that(2))
  qed
qed

lemma map_of_rev_declared:
  "map_of (rev (declared cs)) i =
     (if declarations_of cs i = [] then None else Some (last (declarations_of cs i)))"
proof (induction cs rule: rev_induct)
  case Nil
  show ?case by (simp add: declarations_of_def)
next
  case (snoc cls cs)
  have app: "declared (cs @ [cls]) = declared cs @ map (\<lambda>i. (i, cls)) (indexed_id cls)"
    by (simp add: declared_def)
  show ?case
  proof (cases cls rule: indexed_id_cases)
    case 1
    with snoc show ?thesis by (simp add: app declarations_of_def)
  next
    case (2 j)
    with snoc show ?thesis by (simp add: app declarations_of_def)
  qed
qed

lemma parents_in_subclass_edges:
  "parents_in (subclass_edges cs) i = concat (map parent_refs (declarations_of cs i))"
proof (induction cs)
  case Nil
  show ?case by (simp add: declarations_of_def)
next
  case (Cons cls cs)
  show ?case
  proof (cases cls rule: indexed_id_cases)
    case 1
    with Cons show ?thesis by (simp add: subclass_edges_Cons declarations_of_def)
  next
    case (2 j)
    have "parents_in (map (Pair j) ps) i = (if j = i then ps else [])" for ps
      by (induction ps) (auto simp: parents_in_def)
    with 2 Cons show ?thesis
      by (simp add: subclass_edges_Cons declarations_of_def)
  qed
qed

lemma distinct_edges_iff: "distinct es \<longleftrightarrow> (\<forall>c. distinct (parents_in es c))"
proof
  assume "distinct es"
  then show "\<forall>c. distinct (parents_in es c)"
    by (simp add: distinct_parents_in)
next
  show "\<forall>c. distinct (parents_in es c) \<Longrightarrow> distinct es"
  proof (induction es)
    case Nil
    show ?case by simp
  next
    case (Cons e es)
    have step: "parents_in (e # es) c =
        (if fst e = c then snd e # parents_in es c else parents_in es c)" for c
      by (simp add: parents_in_def)
    have "distinct (parents_in es c)" for c
      using Cons.prems [rule_format, of c] by (simp add: step split: if_splits)
    then have "distinct es"
      using Cons.IH by simp
    moreover have "snd e \<notin> set (parents_in es (fst e))"
      using Cons.prems [rule_format, of "fst e"] by (simp add: step)
    then have "e \<notin> set es"
      by (cases e) (simp add: in_parents_in)
    ultimately show ?case by simp
  qed
qed

lemma distinct_parent_refs_iff:
  "(\<forall>k. distinct (concat (map parent_refs (declarations_of cs k)))) \<longleftrightarrow>
     distinct (subclass_edges cs)"
  by (simp add: distinct_edges_iff parents_in_subclass_edges)

lemma declarations_of_declared:
  "declarations_of cs i \<noteq> [] \<longleftrightarrow> i \<in> fst ` set (declared cs)"
proof (induction cs)
  case Nil
  show ?case by (simp add: declarations_of_def)
next
  case (Cons cls cs)
  show ?case
  proof (cases cls rule: indexed_id_cases)
    case 1
    with Cons show ?thesis by (simp add: declared_Cons declarations_of_def)
  next
    case (2 j)
    with Cons show ?thesis by (auto simp: declared_Cons declarations_of_def)
  qed
qed

lemma one_entry_per_key:
  "distinct (map fst m) \<Longrightarrow> k \<in> set (map fst m) \<Longrightarrow> length (filter (\<lambda>e. fst e = k) m) = 1"
proof (induction m)
  case Nil
  then show ?case by simp
next
  case (Cons e m)
  show ?case
  proof (cases "fst e = k")
    case True
    with Cons.prems have "filter (\<lambda>e. fst e = k) m = []"
      by (auto simp: filter_empty_conv image_iff)
    with True show ?thesis by simp
  next
    case False
    with Cons show ?thesis by auto
  qed
qed




lemma owlClasses_parsererror_document [simp]: "owlClasses (parsererror_document xmlText) = []"
  by (simp add: owlClasses_def parsererror_document_def parsererror_element_def)



subsection \<open>Splitting an identifier\<close>

lemma split_is_split_any: "split sep s = split_any [sep] s"
  by (induction s) auto

lemma split_any_not_Nil [simp]: "split_any seps s \<noteq> []"
  by (induction s) (auto split: list.splits)

lemma length_split_any:
  "length (split_any seps s) = Suc (length (filter (\<lambda>c. c \<in> set seps) s))"
  by (induction s) (auto split: list.splits)

lemma split_any_no_separator:
  "\<forall>c \<in> set s. c \<notin> set seps \<Longrightarrow> split_any seps s = [s]"
  by (induction s) auto

lemma last_split_any:
  "last (split_any seps s) = rev (takeWhile (\<lambda>c. c \<notin> set seps) (rev s))"
proof (induction s)
  case Nil
  show ?case by simp
next
  case (Cons c cs)
  let ?P = "\<lambda>c. c \<notin> set seps"
  show ?case
  proof (cases "\<forall>x \<in> set cs. ?P x")
    case True
    have all: "takeWhile ?P (rev cs @ ys) = rev cs @ takeWhile ?P ys" for ys
      by (rule takeWhile_append2) (use True in simp)
    have whole: "takeWhile ?P (rev cs) = rev cs"
      using True by simp
    show ?thesis
    proof (cases "c \<in> set seps")
      case True
      then show ?thesis using Cons all [of "[c]"] by (simp add: whole)
    next
      case False
      have l: "split_any seps (c # cs) = [c # cs]"
        using False True by (simp add: split_any_no_separator)
      have r: "takeWhile ?P (rev (c # cs)) = rev (c # cs)"
        using False True by simp
      show ?thesis unfolding l r by simp
    qed
  next
    case False
    then obtain x where x: "x \<in> set (rev cs)" "\<not> ?P x"
      by auto
    have tw: "takeWhile ?P (rev cs @ [c]) = takeWhile ?P (rev cs)"
      using takeWhile_append1 [of x "rev cs" ?P "[c]"] x by simp
    from False have "filter (\<lambda>c. c \<in> set seps) cs \<noteq> []"
      by (auto simp: filter_empty_conv)
    then have "length (split_any seps cs) \<ge> 2"
      by (cases "filter (\<lambda>c. c \<in> set seps) cs") (simp_all add: length_split_any)
    then obtain s t ss where sp: "split_any seps cs = s # t # ss"
      by (cases "split_any seps cs" rule: list.exhaust; cases "tl (split_any seps cs)") auto
    show ?thesis
      using Cons sp tw by simp
  qed
qed

lemma takeWhile_twice:
  "takeWhile P (takeWhile Q xs) = takeWhile (\<lambda>x. P x \<and> Q x) xs"
  by (induction xs) auto

lemma pop_split: "pop (split sep s) = Some (last (split sep s))"
  by (cases "split sep s") (simp_all add: split_is_split_any)

lemma chained_pop_final_segment:
  "Option.bind (pop (split CHR ''#'' i)) (\<lambda>s. pop (split CHR ''/'' s)) = Some (final_segment i)"
proof -
  have "last (split CHR ''/'' (last (split CHR ''#'' i))) = final_segment i"
    by (simp add: split_is_split_any last_split_any final_segment_def takeWhile_twice conj_commute)
  then show ?thesis
    by (simp add: pop_split)
qed

lemma class_label_without_label_element:
  "getElementsByTagName cls ''rdfs:label'' = [] \<Longrightarrow>
     class_label cls i = (if final_segment i = [] then i else final_segment i)"
  by (simp add: class_label_def chained_pop_final_segment js_or_def js_or_str_def)

lemma class_label_explicit:
  "class_label cls i =
     (case getElementsByTagName cls ''rdfs:label'' of
        [] \<Rightarrow> if final_segment i = [] then i else final_segment i
      | e # es \<Rightarrow>
          if textContent e = [] then (if final_segment i = [] then i else final_segment i)
          else textContent e)"
  by (simp add: class_label_def chained_pop_final_segment js_or_def js_or_str_def
      split: list.splits)

lemma class_description_explicit:
  "class_description cls =
     (case getElementsByTagName cls ''rdfs:comment'' of [] \<Rightarrow> [] | e # es \<Rightarrow> textContent e)"
  by (simp add: class_description_def js_or_str_def split: list.splits)

lemma final_nonempty_when_final_nonempty:
  "final_segment i \<noteq> [] \<Longrightarrow> final_nonempty_segment i = Some (final_segment i)"
proof -
  assume ne: "final_segment i \<noteq> []"
  have *: "xs \<noteq> [] \<Longrightarrow> last xs \<noteq> [] \<Longrightarrow>
      filter (\<lambda>s. s \<noteq> []) xs \<noteq> [] \<and> last (filter (\<lambda>s. s \<noteq> []) xs) = last xs"
    for xs :: "string list"
    by (cases xs rule: rev_cases) simp_all
  from * [of "split_any ''#/'' i"] ne show ?thesis
    by (auto simp: final_nonempty_segment_def final_segment_def split: list.splits)
qed

subsection \<open>Resolving children\<close>

lemma resolve_children_eq:
  "map the (filter (\<lambda>child. child \<noteq> None) (map f xs)) =
     concat (map (\<lambda>x. case f x of None \<Rightarrow> [] | Some c \<Rightarrow> [c]) xs)"
  by (induction xs) auto

subsection \<open>The search\<close>

lemma includes_str_empty [simp]: "includes_str s []"
  by (cases s) simp_all

lemma toLowerCase_accented_example:
  "toLowerCase (CHR 0xC9 # ''COLE'') = CHR 0xE9 # ''cole'' \<and>
   includes_str (toLowerCase (CHR 0xC9 # ''COLE'')) (toLowerCase (CHR 0xE9 # ''cole''))"
proof -
  have "toLowerCase (CHR 0xC9 # ''COLE'') = CHR 0xE9 # ''cole''"
    "toLowerCase (CHR 0xE9 # ''cole'') = CHR 0xE9 # ''cole''"
    by code_simp+
  then show ?thesis by simp
qed

lemma includes_str_iff_sublist: "includes_str s t \<longleftrightarrow> sublist t s"
  by (induction s) (simp_all add: sublist_Cons_right)

lemma array_some_Cons_SomeD:
  "array_some g (x # xs) = Some y \<Longrightarrow> \<exists>b. g x = Some b"
  by (cases "g x") simp_all

lemma array_some_True:
  "array_some g xs = Some True \<Longrightarrow> \<exists>x \<in> set xs. g x = Some True"
proof (induction xs)
  case Nil
  then show ?case by simp
next
  case (Cons x xs)
  then show ?case
    by (cases "g x") (auto split: if_splits)
qed

lemma array_some_False:
  "array_some g xs = Some False \<Longrightarrow> \<forall>x \<in> set xs. g x = Some False"
proof (induction xs)
  case Nil
  then show ?case by simp
next
  case (Cons x xs)
  then show ?case
    by (cases "g x") (auto split: if_splits)
qed

lemma array_some_returns:
  "\<forall>x \<in> set xs. \<exists>b. g x = Some b \<Longrightarrow> \<exists>y. array_some g xs = Some y"
  by (induction xs) auto

text \<open>
  \<open>S\<close> is a set of identifiers of the class map, none of whose labels contains the term,
  and each with a first child that is in \<open>S\<close> again.  The descent from a member of \<open>S\<close>
  calls itself on the first child before anything else, so it never returns.
\<close>

lemma hasMatchingChild_returns_outside:
  assumes closed: "\<And>n. n \<in> S \<Longrightarrow>
      \<exists>node c cs. Map_get (classMap d) n = Some node \<and>
        \<not> includes_str (toLowerCase (label node)) (toLowerCase t) \<and>
        children node = c # cs \<and> c \<in> S"
    and ret: "hasMatchingChild od m u = Some y"
  shows "\<not> (od = Some d \<and> u = t \<and> m \<in> S)"
proof (rule hasMatchingChild.raw_induct
    [where P = "\<lambda>od m u y. \<not> (od = Some d \<and> u = t \<and> m \<in> S)", OF _ ret])
  fix f :: "OntologyData option \<Rightarrow> string \<Rightarrow> string \<Rightarrow> bool option" and od m u y
  assume IH: "\<And>od m u y. f od m u = Some y \<Longrightarrow> \<not> (od = Some d \<and> u = t \<and> m \<in> S)"
    and body:
      "(case Option.bind od (\<lambda>d. Map_get (classMap d) m) of
          None \<Rightarrow> Some False
        | Some node \<Rightarrow>
            if includes_str (toLowerCase (label node)) (toLowerCase u) then Some True
            else array_some (\<lambda>childId. f od childId u) (children node)) = Some y"
  show "\<not> (od = Some d \<and> u = t \<and> m \<in> S)"
  proof
    assume a: "od = Some d \<and> u = t \<and> m \<in> S"
    then obtain node c cs where node: "Map_get (classMap d) m = Some node"
      "\<not> includes_str (toLowerCase (label node)) (toLowerCase t)"
      "children node = c # cs" "c \<in> S"
      using closed by blast
    from body a node have "array_some (\<lambda>childId. f od childId u) (c # cs) = Some y"
      by simp
    then obtain b where "f od c u = Some b"
      using array_some_Cons_SomeD by fastforce
    from IH [OF this] a node(4) show False
      by simp
  qed
qed

lemma hasMatchingChild_no_return:
  assumes "\<And>n. n \<in> S \<Longrightarrow>
      \<exists>node c cs. Map_get (classMap d) n = Some node \<and>
        \<not> includes_str (toLowerCase (label node)) (toLowerCase t) \<and>
        children node = c # cs \<and> c \<in> S"
    and "n \<in> S"
  shows "hasMatchingChild (Some d) n t = None"
  using hasMatchingChild_returns_outside [of S d t "Some d" n t] assms
  by (cases "hasMatchingChild (Some d) n t") auto

text \<open>Whenever a call returns, it returns whether the term occurs, up to case, in the label
  of a class reached along \<open>children\<close>.\<close>

lemma hasMatchingChild_result:
  assumes ret: "hasMatchingChild od n t = Some y"
  shows "\<forall>d. od = Some d \<longrightarrow> y = (\<exists>m. reaches d n m \<and> label_matches d m t)"
proof (rule hasMatchingChild.raw_induct
    [where P = "\<lambda>od n t y. \<forall>d. od = Some d \<longrightarrow> y = (\<exists>m. reaches d n m \<and> label_matches d m t)",
     OF _ ret])
  fix f :: "OntologyData option \<Rightarrow> string \<Rightarrow> string \<Rightarrow> bool option" and od n t y
  assume IH: "\<And>od n t y. f od n t = Some y \<Longrightarrow>
      \<forall>d. od = Some d \<longrightarrow> y = (\<exists>m. reaches d n m \<and> label_matches d m t)"
    and body:
      "(case Option.bind od (\<lambda>d. Map_get (classMap d) n) of
          None \<Rightarrow> Some False
        | Some node \<Rightarrow>
            if includes_str (toLowerCase (label node)) (toLowerCase t) then Some True
            else array_some (\<lambda>childId. f od childId t) (children node)) = Some y"
  show "\<forall>d. od = Some d \<longrightarrow> y = (\<exists>m. reaches d n m \<and> label_matches d m t)"
  proof (intro allI impI)
    fix d
    assume od: "od = Some d"
    show "y = (\<exists>m. reaches d n m \<and> label_matches d m t)"
    proof (cases "Map_get (classMap d) n")
      case None
      then have "\<not> reaches d n m" for m
        by (auto elim: reaches.cases)
      with None body od show ?thesis by simp
    next
      case (Some node)
      show ?thesis
      proof (cases "includes_str (toLowerCase (label node)) (toLowerCase t)")
        case True
        then have "reaches d n n \<and> label_matches d n t"
          using Some by (auto intro: reaches_self simp: label_matches_def)
        with True Some body od show ?thesis by auto
      next
        case False
        with Some body od
        have some: "array_some (\<lambda>childId. f od childId t) (children node) = Some y"
          by simp
        show ?thesis
        proof (cases y)
          case True
          with some obtain c where c: "c \<in> set (children node)" "f od c t = Some True"
            using array_some_True by fastforce
          from IH [OF c(2)] od obtain m where "reaches d c m" "label_matches d m t"
            by auto
          with Some c(1) have "reaches d n m \<and> label_matches d m t"
            by (auto intro: reaches_child)
          with True show ?thesis by auto
        next
          case no: False
          with some have all: "\<forall>c \<in> set (children node). f od c t = Some False"
            using array_some_False by fastforce
          have "\<not> label_matches d m t" if "reaches d n m" for m
            using that
          proof (cases rule: reaches.cases)
            case (reaches_self node')
            with Some False show ?thesis by (simp add: label_matches_def)
          next
            case (reaches_child node' c)
            with Some all have "f od c t = Some False" by simp
            from IH [OF this] od reaches_child(3) show ?thesis by auto
          qed
          with no show ?thesis by auto
        qed
      qed
    qed
  qed
qed

text \<open>Where every child stands strictly below its parent in some rank, so that the
  \<open>children\<close> entries have no cycle, every call returns, and returns that value.\<close>

lemma hasMatchingChild_returns_when_ranked:
  fixes rank :: "string \<Rightarrow> nat"
  assumes "\<And>n node c. Map_get (classMap d) n = Some node \<Longrightarrow> c \<in> set (children node) \<Longrightarrow>
      rank c < rank n"
  shows "\<exists>y. hasMatchingChild (Some d) n t = Some y"
proof (induction n rule: measure_induct_rule [of rank])
  case (less n)
  show ?case
  proof (cases "Map_get (classMap d) n")
    case None
    then show ?thesis by (subst hasMatchingChild.simps) auto
  next
    case (Some node)
    have "\<forall>c \<in> set (children node). \<exists>b. hasMatchingChild (Some d) c t = Some b"
      using less assms [OF Some] by blast
    from array_some_returns [OF this] Some show ?thesis
      by (subst hasMatchingChild.simps) auto
  qed
qed

lemma hasMatchingChild_correct_when_ranked:
  fixes rank :: "string \<Rightarrow> nat"
  assumes "\<And>n node c. Map_get (classMap d) n = Some node \<Longrightarrow> c \<in> set (children node) \<Longrightarrow>
      rank c < rank n"
  shows "hasMatchingChild (Some d) n t = Some (\<exists>m. reaches d n m \<and> label_matches d m t)"
proof -
  obtain y where y: "hasMatchingChild (Some d) n t = Some y"
    using hasMatchingChild_returns_when_ranked [where rank = rank] assms by blast
  from hasMatchingChild_result [OF y] y show ?thesis
    by simp
qed

subsection \<open>Evaluating the examples\<close>

lemmas eval_defs = parseOWL_doc_def owlClasses_def owl_class_def getElementsByTagName_def class_id_def js_or_def js_or_str_def
     class_label_def class_description_def Map_push_def Map_has_def Map_get_def build_arrays_def find_roots_def
     Map_values_def js_or_empty_def sort_by_label_def

lemma parse_doc_tree: "parseOWL_doc default doc_tree = Inr index_tree"
  by (simp add: eval_defs doc_tree_def index_tree_def)

lemma parse_doc_dup_edge: "parseOWL_doc default doc_dup_edge = Inr index_dup_edge"
  by (simp add: eval_defs doc_dup_edge_def index_dup_edge_def)

lemma parse_doc_nested: "parseOWL_doc default doc_nested = Inr index_nested"
  by (simp add: eval_defs doc_nested_def index_nested_def)

lemma parse_doc_dup_id: "parseOWL_doc default doc_dup_id = Inr index_dup_id"
  by (simp add: eval_defs doc_dup_id_def index_dup_id_def)

lemma parse_doc_slash: "parseOWL_doc default doc_slash = Inr index_slash"
  by (simp add: eval_defs doc_slash_def index_slash_def)

lemma parse_doc_cycle: "parseOWL_doc default doc_cycle = Inr index_cycle"
  by (simp add: eval_defs doc_cycle_def index_cycle_def)

lemma parse_doc_cycle_match: "parseOWL_doc default doc_cycle_match = Inr index_cycle_match"
  by (simp add: eval_defs doc_cycle_match_def index_cycle_match_def)

lemma edges_doc_tree:
  "subclass_edges (owlClasses doc_tree) = [(''C'', ''A''), (''B'', ''A'')]"
  by (simp add: subclass_edges_def declared_def indexed_id_def parent_refs_def resource_of_def
      owlClasses_def doc_tree_def owl_class_def getElementsByTagName_def class_id_def js_or_def)






section \<open>The claims\<close>

text \<open>
  C1, the code at the failing input.  The index of the two-node cycle is built without
  trouble and both classes are roots by the fallback; but the search for a term that
  neither label contains descends from \<open>A\<close> to \<open>B\<close> and back without end: the call does
  not return a boolean.
\<close>

theorem hasMatchingChild_cycle_no_return:
  "parseOWL_doc default doc_cycle = Inr index_cycle \<and>
   hasMatchingChild (Some index_cycle) ''A'' ''zzz'' = None \<and>
   hasMatchingChild (Some index_cycle) ''B'' ''zzz'' = None"
proof -
  have closed: "\<exists>node c cs. Map_get (classMap index_cycle) n = Some node \<and>
        \<not> includes_str (toLowerCase (label node)) (toLowerCase ''zzz'') \<and>
        children node = c # cs \<and> c \<in> {''A'', ''B''}"
    if "n \<in> {''A'', ''B''}" for n
    using that
    by (auto simp: index_cycle_def Map_get_def toLowerCase_def lower_char_def)
  show ?thesis
    using parse_doc_cycle
      hasMatchingChild_no_return [of "{''A'', ''B''}" index_cycle "''zzz''" "''A''", OF closed]
      hasMatchingChild_no_return [of "{''A'', ''B''}" index_cycle "''zzz''" "''B''", OF closed]
    by simp
qed

text \<open>
  C2, the code at the failing input.  \<open>C\<close> is a child of \<open>A\<close>, its label
  \<open>Metabolic Process\<close> contains \<open>metab\<close> up to case, and the search from \<open>C\<close> itself
  returns \<^verbatim>\<open>true\<close>.  The search from \<open>A\<close> visits the child \<open>B\<close> first, which leads back
  to \<open>A\<close>; it never reaches \<open>C\<close> and does not return \<^verbatim>\<open>true\<close>.
\<close>

theorem hasMatchingChild_misses_reachable_match:
  "parseOWL_doc default doc_cycle_match = Inr index_cycle_match \<and>
   map_option children (Map_get (classMap index_cycle_match) ''A'') = Some [''B'', ''C''] \<and>
   map_option label (Map_get (classMap index_cycle_match) ''C'') = Some ''Metabolic Process'' \<and>
   includes_str (toLowerCase ''Metabolic Process'') (toLowerCase ''metab'') \<and>
   hasMatchingChild (Some index_cycle_match) ''C'' ''metab'' = Some True \<and>
   hasMatchingChild (Some index_cycle_match) ''A'' ''metab'' = None"
proof -
  have closed: "\<exists>node c cs. Map_get (classMap index_cycle_match) n = Some node \<and>
        \<not> includes_str (toLowerCase (label node)) (toLowerCase ''metab'') \<and>
        children node = c # cs \<and> c \<in> {''A'', ''B''}"
    if "n \<in> {''A'', ''B''}" for n
    using that
    by (auto simp: index_cycle_match_def Map_get_def toLowerCase_def lower_char_def)
  have "toLowerCase ''Metabolic Process'' = ''metabolic process''" "toLowerCase ''metab'' = ''metab''"
    by code_simp+
  then have m: "includes_str (toLowerCase ''Metabolic Process'') (toLowerCase ''metab'')"
    by simp
  have c: "hasMatchingChild (Some index_cycle_match) ''C'' ''metab'' = Some True"
    by (subst hasMatchingChild.simps) (simp add: index_cycle_match_def Map_get_def m)
  show ?thesis
    using parse_doc_cycle_match m c
      hasMatchingChild_no_return [of "{''A'', ''B''}" index_cycle_match "''metab''" "''A''", OF closed]
    by (simp add: index_cycle_match_def Map_get_def)
qed

text \<open>
  C3.  The keys of the class map stand in the order in which the identifiers are first
  declared.  The roots are the classes of the map without parents, sorted by label under
  the locale's collation; when there is no such class, they are the first ten classes of
  the map, sorted by label.  So the roots are sorted, and not empty unless the class map
  is.
\<close>

theorem roots_policy:
  assumes "parseOWL_doc lc xmlDoc = Inr data"
  shows "map fst (classMap data) = first_occurrences (map fst (declared (owlClasses xmlDoc))) \<and>
         (filter (\<lambda>c. parents c = []) (Map_values (classMap data)) \<noteq> [] \<longrightarrow>
            roots data = Sorting_Algorithms.sort (key label lc)
              (filter (\<lambda>c. parents c = []) (Map_values (classMap data)))) \<and>
         (filter (\<lambda>c. parents c = []) (Map_values (classMap data)) = [] \<longrightarrow>
            roots data = Sorting_Algorithms.sort (key label lc)
              (take 10 (Map_values (classMap data)))) \<and>
         Sorting_Algorithms.sorted (key label lc) (roots data) \<and>
         (classMap data \<noteq> [] \<longrightarrow> roots data \<noteq> [])"
proof -
  let ?vs = "Map_values (classMap data)"
  let ?rs = "filter (\<lambda>c. parents c = []) ?vs"
  have r: "roots data = Sorting_Algorithms.sort (key label lc) (if ?rs \<noteq> [] then ?rs else take 10 ?vs)"
    using parseOWL_doc_roots [OF assms] by (simp add: sort_by_label_def top_level_def)
  have "roots data \<noteq> []" if "classMap data \<noteq> []"
  proof -
    from that have "?vs \<noteq> []" by (simp add: Map_values_def)
    then have "(if ?rs \<noteq> [] then ?rs else take 10 ?vs) \<noteq> []" by simp
    then have "length (roots data) \<noteq> 0" unfolding r length_sort by simp
    then show ?thesis by simp
  qed
  moreover have "Sorting_Algorithms.sorted (key label lc) (roots data)"
    unfolding r by (rule sorted_sort)
  ultimately show ?thesis
    using r parseOWL_doc_keys [OF assms] by simp
qed

theorem roots_policy_witness:
  "parseOWL_doc default doc_tree = Inr index_tree \<and>
   roots index_tree =
     [\<lparr>id' = ''A'', label = ''Bravo'', description = [], children = [''C'', ''B''], parents = []\<rparr>] \<and>
   parseOWL_doc default doc_cycle = Inr index_cycle \<and>
   filter (\<lambda>c. parents c = []) (Map_values (classMap index_cycle)) = [] \<and>
   roots index_cycle = Sorting_Algorithms.sort (key label default) (take 10 (Map_values (classMap index_cycle))) \<and>
   roots index_cycle \<noteq> []"
  using roots_policy [OF parse_doc_tree] roots_policy [OF parse_doc_cycle] parse_doc_tree parse_doc_cycle
  by (simp add: index_tree_def index_cycle_def Map_values_def)

text \<open>
  C4 as stated fails: for the identifier \<open>http://x.org/foo/\<close>, which ends in a
  separator, the final non-empty segment is \<open>foo\<close>, but the class without label element
  gets the raw identifier as its label.
\<close>

theorem fallback_label_counterexample:
  "parseOWL_doc default doc_slash = Inr index_slash \<and>
   declarations_of (owlClasses doc_slash) ''http://x.org/foo/'' =
     [owl_class [(''rdf:about'', ''http://x.org/foo/'')] [] []] \<and>
   getElementsByTagName (owl_class [(''rdf:about'', ''http://x.org/foo/'')] [] []) ''rdfs:label'' = [] \<and>
   map_option label (Map_get (classMap index_slash) ''http://x.org/foo/'') = Some ''http://x.org/foo/'' \<and>
   final_nonempty_segment ''http://x.org/foo/'' = Some ''foo'' \<and>
   spec_fallback_label ''http://x.org/foo/'' = ''foo''"
  using parse_doc_slash
  by (simp add: declarations_of_def owlClasses_def doc_slash_def indexed_id_def class_id_def
      js_or_def owl_class_def getElementsByTagName_def index_slash_def Map_get_def
      final_nonempty_segment_def spec_fallback_label_def)

text \<open>
  C4, amended.  A class whose last declaration has no label element gets as label the
  final segment of its identifier split on \<open>#\<close> and \<open>/\<close>, that is, what stands after
  the last separator, when that segment is non-empty; when it is empty (the identifier
  ends in \<open>#\<close> or \<open>/\<close>) the label is the raw identifier.  Where the final segment is
  non-empty this is the label the specification describes.
\<close>

theorem fallback_label:
  assumes "parseOWL_doc lc xmlDoc = Inr data"
    and "declarations_of (owlClasses xmlDoc) i \<noteq> []"
    and "getElementsByTagName (last (declarations_of (owlClasses xmlDoc) i)) ''rdfs:label'' = []"
  shows "\<exists>c. Map_get (classMap data) i = Some c \<and>
           label c = (if final_segment i = [] then i else final_segment i) \<and>
           (final_segment i \<noteq> [] \<longrightarrow> label c = spec_fallback_label i)"
proof -
  obtain c where c: "Map_get (classMap data) i = Some c"
    "label c = class_label (last (declarations_of (owlClasses xmlDoc) i)) i"
    using assms(2) by (simp add: parseOWL_doc_get [OF assms(1)] entry_of_def map_of_rev_declared)
  have "label c = (if final_segment i = [] then i else final_segment i)"
    using c(2) class_label_without_label_element [OF assms(3)] by simp
  then show ?thesis
    using c(1) by (auto simp: spec_fallback_label_def final_nonempty_when_final_nonempty)
qed

theorem fallback_label_witness:
  "parseOWL_doc default doc_slash = Inr index_slash \<and>
   final_segment ''http://x.org/onto#Cell'' = ''Cell'' \<and>
   (\<exists>c. Map_get (classMap index_slash) ''http://x.org/onto#Cell'' = Some c \<and> label c = ''Cell'')"
proof -
  have d: "declarations_of (owlClasses doc_slash) ''http://x.org/onto#Cell'' =
      [owl_class [(''rdf:about'', ''http://x.org/onto#Cell'')] [] []]"
    by (simp add: declarations_of_def owlClasses_def doc_slash_def indexed_id_def class_id_def
        js_or_def owl_class_def)
  have ne: "declarations_of (owlClasses doc_slash) ''http://x.org/onto#Cell'' \<noteq> []"
    unfolding d by simp
  have nl: "getElementsByTagName (last (declarations_of (owlClasses doc_slash) ''http://x.org/onto#Cell''))
      ''rdfs:label'' = []"
    unfolding d by (simp add: owl_class_def getElementsByTagName_def)
  have f: "final_segment ''http://x.org/onto#Cell'' = ''Cell''"
    by (simp add: final_segment_def)
  from fallback_label [OF parse_doc_slash ne nl]
  have "\<exists>c. Map_get (classMap index_slash) ''http://x.org/onto#Cell'' = Some c \<and> label c = ''Cell''"
    unfolding f by auto
  with parse_doc_slash f show ?thesis by simp
qed

text \<open>
  C5.  For a node of the class map, \<^verbatim>\<open>getChildNodes\<close> returns the classes that its
  \<open>children\<close> resolve to (identifiers that are no key of the map are dropped), sorted by
  label under the locale's collation: the result is sorted, a permutation of the
  resolved children, and keeps classes with equivalent labels in the order of the
  \<open>children\<close> array.  For an identifier that is no key of the map the result is empty.
\<close>

theorem getChildNodes_sorted:
  "(\<forall>node. Map_get (classMap d) nodeId = Some node \<longrightarrow>
      getChildNodes lc (Some d) nodeId =
        Sorting_Algorithms.sort (key label lc) (resolved_children d node) \<and>
      Sorting_Algorithms.sorted (key label lc) (getChildNodes lc (Some d) nodeId) \<and>
      mset (getChildNodes lc (Some d) nodeId) = mset (resolved_children d node) \<and>
      (\<forall>c. filter (\<lambda>y. compare (key label lc) c y = Equiv) (getChildNodes lc (Some d) nodeId) =
           filter (\<lambda>y. compare (key label lc) c y = Equiv) (resolved_children d node))) \<and>
   (Map_get (classMap d) nodeId = None \<longrightarrow> getChildNodes lc (Some d) nodeId = [])"
proof (intro conjI allI impI)
  assume "Map_get (classMap d) nodeId = None"
  then show "getChildNodes lc (Some d) nodeId = []"
    by (simp add: getChildNodes_def)
next
  fix node
  assume n: "Map_get (classMap d) nodeId = Some node"
  then show g: "getChildNodes lc (Some d) nodeId =
      Sorting_Algorithms.sort (key label lc) (resolved_children d node)"
    by (simp add: getChildNodes_def sort_by_label_def resolved_children_def
        resolve_children_eq [symmetric])
  show "Sorting_Algorithms.sorted (key label lc) (getChildNodes lc (Some d) nodeId)"
    unfolding g by (rule sorted_sort)
  show "mset (getChildNodes lc (Some d) nodeId) = mset (resolved_children d node)"
    unfolding g by (rule mset_sort)
  show "filter (\<lambda>y. compare (key label lc) c y = Equiv) (getChildNodes lc (Some d) nodeId) =
        filter (\<lambda>y. compare (key label lc) c y = Equiv) (resolved_children d node)" for c
    unfolding g by (rule stable_sort)
qed

theorem getChildNodes_sorted_witness:
  "Map_get (classMap index_tree) ''A'' =
     Some \<lparr>id' = ''A'', label = ''Bravo'', description = [], children = [''C'', ''B''], parents = []\<rparr> \<and>
   getChildNodes default (Some index_tree) ''A'' =
     [\<lparr>id' = ''B'', label = ''Alpha'', description = [], children = [], parents = [''A'']\<rparr>,
      \<lparr>id' = ''C'', label = ''Charlie'', description = [], children = [], parents = [''A'']\<rparr>] \<and>
   Map_get (classMap index_tree) ''Z'' = None \<and>
   getChildNodes default (Some index_tree) ''Z'' = []"
proof -
  have a: "Map_get (classMap index_tree) ''A'' =
     Some \<lparr>id' = ''A'', label = ''Bravo'', description = [], children = [''C'', ''B''], parents = []\<rparr>"
    and z: "Map_get (classMap index_tree) ''Z'' = None"
    by (simp_all add: index_tree_def Map_get_def)
  have r: "resolved_children index_tree
       \<lparr>id' = ''A'', label = ''Bravo'', description = [], children = [''C'', ''B''], parents = []\<rparr> =
     [\<lparr>id' = ''C'', label = ''Charlie'', description = [], children = [], parents = [''A'']\<rparr>,
      \<lparr>id' = ''B'', label = ''Alpha'', description = [], children = [], parents = [''A'']\<rparr>]"
    by (simp add: resolved_children_def index_tree_def Map_get_def)
  from getChildNodes_sorted [of index_tree "''A''" default] a
  have "getChildNodes default (Some index_tree) ''A'' =
      Sorting_Algorithms.sort (key label default)
        (resolved_children index_tree
           \<lparr>id' = ''A'', label = ''Bravo'', description = [], children = [''C'', ''B''], parents = []\<rparr>)"
    by blast
  moreover from getChildNodes_sorted [of index_tree "''Z''" default] z
  have "getChildNodes default (Some index_tree) ''Z'' = []"
    by blast
  ultimately show ?thesis
    using a z unfolding r by simp
qed

text \<open>
  C6.  In the index of any document, whenever a class \<open>c\<close> names \<open>p\<close> among its parents
  and \<open>p\<close> is itself a key of the class map, the identifier of \<open>c\<close> is among the
  children of \<open>p\<close>'s entry; and, the other way round, every child of an entry is a key of
  the class map whose entry names that class among its parents.
\<close>

theorem parents_children_inverse:
  assumes "parseOWL_doc lc xmlDoc = Inr data"
  shows "(\<forall>c \<in> set (Map_values (classMap data)). \<forall>p \<in> set (parents c). \<forall>pc.
            Map_get (classMap data) p = Some pc \<longrightarrow> id' c \<in> set (children pc)) \<and>
         (\<forall>pc \<in> set (Map_values (classMap data)). \<forall>c \<in> set (children pc). \<exists>cc.
            Map_get (classMap data) c = Some cc \<and> id' pc \<in> set (parents cc))"
proof (intro conjI ballI allI impI)
  fix c p pc
  assume c: "c \<in> set (Map_values (classMap data))" and p: "p \<in> set (parents c)"
    and pc: "Map_get (classMap data) p = Some pc"
  let ?E = "subclass_edges (owlClasses xmlDoc)"
  from parsed_value_entry [OF assms c] have "parents c = parents_in ?E (id' c)"
    using entry_of_SomeD by blast
  with p have "(id' c, p) \<in> set ?E"
    by (simp add: in_parents_in)
  moreover from pc have "children pc = children_in ?E p"
    using parseOWL_doc_get [OF assms] entry_of_SomeD by metis
  ultimately show "id' c \<in> set (children pc)"
    by (simp add: in_children_in)
next
  fix pc c
  assume pc: "pc \<in> set (Map_values (classMap data))" and c: "c \<in> set (children pc)"
  let ?E = "subclass_edges (owlClasses xmlDoc)"
  from parsed_value_entry [OF assms pc] have "children pc = children_in ?E (id' pc)"
    using entry_of_SomeD by blast
  with c have e: "(c, id' pc) \<in> set ?E"
    by (simp add: in_children_in)
  then have "entry_of (owlClasses xmlDoc) c \<noteq> None"
    using subclass_edges_child_declared entry_of_declared by blast
  then obtain cc where cc: "entry_of (owlClasses xmlDoc) c = Some cc"
    by blast
  then have "parents cc = parents_in ?E c"
    using entry_of_SomeD by blast
  with e have "id' pc \<in> set (parents cc)"
    by (simp add: in_parents_in)
  with cc show "\<exists>cc. Map_get (classMap data) c = Some cc \<and> id' pc \<in> set (parents cc)"
    using parseOWL_doc_get [OF assms] by simp
qed

theorem parents_children_inverse_witness:
  "parseOWL_doc default doc_tree = Inr index_tree \<and>
   Map_get (classMap index_tree) ''A'' =
     Some \<lparr>id' = ''A'', label = ''Bravo'', description = [], children = [''C'', ''B''], parents = []\<rparr> \<and>
   ''B'' \<in> set (children \<lparr>id' = ''A'', label = ''Bravo'', description = [], children = [''C'', ''B''], parents = []\<rparr>) \<and>
   (\<exists>cc. Map_get (classMap index_tree) ''B'' = Some cc \<and> ''A'' \<in> set (parents cc))"
  using parents_children_inverse [OF parse_doc_tree] parse_doc_tree
  by (simp add: index_tree_def Map_get_def Map_values_def)




text \<open>
  C8 as stated fails: a class element with two \<^verbatim>\<open>rdfs:subClassOf\<close> children that name
  the same parent gets that parent twice in \<open>parents\<close>, and the parent gets the class
  twice in \<open>children\<close>.
\<close>

theorem arrays_duplicates_counterexample:
  "parseOWL_doc default doc_dup_edge = Inr index_dup_edge \<and>
   Map_get (classMap index_dup_edge) ''C'' =
     Some \<lparr>id' = ''C'', label = ''Cat'', description = [], children = [], parents = [''A'', ''A'']\<rparr> \<and>
   \<not> distinct (parents \<lparr>id' = ''C'', label = ''Cat'', description = [], children = [], parents = [''A'', ''A'']\<rparr>) \<and>
   Map_get (classMap index_dup_edge) ''A'' =
     Some \<lparr>id' = ''A'', label = ''Animal'', description = [], children = [''C'', ''C''], parents = []\<rparr> \<and>
   \<not> distinct (children \<lparr>id' = ''A'', label = ''Animal'', description = [], children = [''C'', ''C''], parents = []\<rparr>)"
  using parse_doc_dup_edge by (simp add: index_dup_edge_def Map_get_def)

text \<open>
  C8, amended.  The arrays are lists with repetitions.  For a class with identifier \<open>c\<close>,
  \<open>parents\<close> lists, in document order, the parent named by every \<^verbatim>\<open>rdfs:subClassOf\<close>
  element that stands anywhere below a class element carrying \<open>c\<close>, at any depth and also
  inside a class element nested in it; and an identifier \<open>k\<close> occurs in \<open>children\<close> of \<open>c\<close>
  as often as \<open>c\<close> is named in this way below the class elements carrying \<open>k\<close>.  So
  \<open>parents\<close> and \<open>children\<close> of every class are free of duplicates when, for every
  identifier, the \<^verbatim>\<open>rdfs:subClassOf\<close> elements below the class elements carrying it name
  pairwise different parents.  A parent named twice below one class element, by two class
  elements with the same identifier, or once by a class element and once more by a class
  element nested in it, is listed twice.
\<close>

theorem arrays_distinct_when_parents_named_once:
  assumes "parseOWL_doc lc xmlDoc = Inr data"
  shows "\<forall>c \<in> set (Map_values (classMap data)).
           parents c = concat (map parent_refs (declarations_of (owlClasses xmlDoc) (id' c))) \<and>
           (\<forall>k. count_list (children c) k =
                count_list (concat (map parent_refs (declarations_of (owlClasses xmlDoc) k))) (id' c)) \<and>
           ((\<forall>k. distinct (concat (map parent_refs (declarations_of (owlClasses xmlDoc) k)))) \<longrightarrow>
              distinct (children c) \<and> distinct (parents c))"
proof
  fix c
  assume "c \<in> set (Map_values (classMap data))"
  from entry_of_SomeD [OF parsed_value_entry [OF assms this]]
  have c: "children c = children_in (subclass_edges (owlClasses xmlDoc)) (id' c)"
    "parents c = parents_in (subclass_edges (owlClasses xmlDoc)) (id' c)"
    by simp_all
  have "count_list (children c) k =
      count_list (concat (map parent_refs (declarations_of (owlClasses xmlDoc) k))) (id' c)" for k
    unfolding c parents_in_subclass_edges [symmetric]
    by (simp add: count_children_in count_parents_in)
  moreover have "distinct (children c) \<and> distinct (parents c)"
    if "\<forall>k. distinct (concat (map parent_refs (declarations_of (owlClasses xmlDoc) k)))"
    using that unfolding distinct_parent_refs_iff c
    by (simp add: distinct_children_in distinct_parents_in)
  ultimately show "parents c = concat (map parent_refs (declarations_of (owlClasses xmlDoc) (id' c))) \<and>
      (\<forall>k. count_list (children c) k =
           count_list (concat (map parent_refs (declarations_of (owlClasses xmlDoc) k))) (id' c)) \<and>
      ((\<forall>k. distinct (concat (map parent_refs (declarations_of (owlClasses xmlDoc) k)))) \<longrightarrow>
         distinct (children c) \<and> distinct (parents c))"
    using c(2) by (simp add: parents_in_subclass_edges)
qed

theorem arrays_distinct_when_parents_named_once_witness:
  "parseOWL_doc default doc_tree = Inr index_tree \<and>
   (\<forall>k. distinct (concat (map parent_refs (declarations_of (owlClasses doc_tree) k)))) \<and>
   distinct (children \<lparr>id' = ''A'', label = ''Bravo'', description = [], children = [''C'', ''B''], parents = []\<rparr>) \<and>
   distinct (parents \<lparr>id' = ''B'', label = ''Alpha'', description = [], children = [], parents = [''A'']\<rparr>) \<and>
   parseOWL_doc default doc_nested = Inr index_nested \<and>
   concat (map parent_refs (declarations_of (owlClasses doc_nested) ''C'')) = [''A'', ''A''] \<and>
   parents \<lparr>id' = ''C'', label = ''Cat'', description = [], children = [], parents = [''A'', ''A'']\<rparr> =
     [''A'', ''A'']"
proof -
  have once: "\<forall>k. distinct (concat (map parent_refs (declarations_of (owlClasses doc_tree) k)))"
    unfolding distinct_parent_refs_iff by (simp add: edges_doc_tree)
  have a: "\<lparr>id' = ''A'', label = ''Bravo'', description = [], children = [''C'', ''B''], parents = []\<rparr>
      \<in> set (Map_values (classMap index_tree))"
    and b: "\<lparr>id' = ''B'', label = ''Alpha'', description = [], children = [], parents = [''A'']\<rparr>
      \<in> set (Map_values (classMap index_tree))"
    by (simp_all add: index_tree_def Map_values_def)
  have c: "\<lparr>id' = ''C'', label = ''Cat'', description = [], children = [], parents = [''A'', ''A'']\<rparr>
      \<in> set (Map_values (classMap index_nested))"
    by (simp add: index_nested_def Map_values_def)
  from arrays_distinct_when_parents_named_once [OF parse_doc_tree, rule_format, OF a] once
  have "distinct (children \<lparr>id' = ''A'', label = ''Bravo'', description = [], children = [''C'', ''B''],
      parents = []\<rparr>)"
    by blast
  moreover
  from arrays_distinct_when_parents_named_once [OF parse_doc_tree, rule_format, OF b] once
  have "distinct (parents \<lparr>id' = ''B'', label = ''Alpha'', description = [], children = [],
      parents = [''A'']\<rparr>)"
    by blast
  moreover
  from arrays_distinct_when_parents_named_once [OF parse_doc_nested, rule_format, OF c]
  have "concat (map parent_refs (declarations_of (owlClasses doc_nested) ''C'')) = [''A'', ''A'']"
    by simp
  ultimately show ?thesis
    using parse_doc_tree parse_doc_nested once by simp
qed

text \<open>
  C9.  When one or more class elements carry the identifier \<open>i\<close>, the class map has
  exactly one entry under \<open>i\<close>.  Its label and description are read from the last such
  element in document order: the label is the text of that element's first label element
  (the fallback label from the identifier when it has none, or an empty one), the
  description is the text of its first comment element (empty when it has none); what
  earlier elements with the identifier say is overwritten.  Its parents are the parents
  named by all those elements, in order; and each of those parents that is a key of the
  class map has \<open>i\<close> among its children as often as those elements name it.
\<close>

theorem duplicate_declarations:
  assumes "parseOWL_doc lc xmlDoc = Inr data"
    and "declarations_of (owlClasses xmlDoc) i \<noteq> []"
  shows "length (filter (\<lambda>e. fst e = i) (classMap data)) = 1 \<and>
         (\<exists>c. Map_get (classMap data) i = Some c \<and>
            id' c = i \<and>
            label c =
              (case getElementsByTagName (last (declarations_of (owlClasses xmlDoc) i)) ''rdfs:label'' of
                 [] \<Rightarrow> if final_segment i = [] then i else final_segment i
               | e # es \<Rightarrow>
                   if textContent e = [] then (if final_segment i = [] then i else final_segment i)
                   else textContent e) \<and>
            description c =
              (case getElementsByTagName (last (declarations_of (owlClasses xmlDoc) i)) ''rdfs:comment'' of
                 [] \<Rightarrow> []
               | e # es \<Rightarrow> textContent e) \<and>
            parents c = concat (map parent_refs (declarations_of (owlClasses xmlDoc) i)) \<and>
            (\<forall>p pc. Map_get (classMap data) p = Some pc \<longrightarrow>
               count_list (children pc) i = count_list (parents c) p))"
proof -
  let ?cs = "owlClasses xmlDoc"
  let ?E = "subclass_edges ?cs"
  have "i \<in> set (map fst (classMap data))"
    using assms(2) by (simp add: parseOWL_doc_keys [OF assms(1)] declarations_of_declared)
  then have one: "length (filter (\<lambda>e. fst e = i) (classMap data)) = 1"
    using one_entry_per_key [OF parseOWL_doc_distinct [OF assms(1)]] by blast
  let ?c = "\<lparr>id' = i, label = class_label (last (declarations_of ?cs i)) i,
              description = class_description (last (declarations_of ?cs i)),
              children = children_in ?E i, parents = parents_in ?E i\<rparr>"
  have get: "Map_get (classMap data) i = Some ?c"
    using assms(2) by (simp add: parseOWL_doc_get [OF assms(1)] entry_of_def map_of_rev_declared)
  have "count_list (children pc) i = count_list (parents ?c) p"
    if "Map_get (classMap data) p = Some pc" for p pc
  proof -
    from that have "children pc = children_in ?E p"
      using parseOWL_doc_get [OF assms(1)] entry_of_SomeD by metis
    then show ?thesis
      by (simp add: count_children_in count_parents_in)
  qed
  with get one show ?thesis
    by (simp add: parents_in_subclass_edges class_label_explicit [symmetric]
        class_description_explicit [symmetric])
qed

theorem duplicate_declarations_witness:
  "parseOWL_doc default doc_dup_id = Inr index_dup_id \<and>
   length (declarations_of (owlClasses doc_dup_id) ''X'') = 2 \<and>
   map textContent (getElementsByTagName (hd (declarations_of (owlClasses doc_dup_id) ''X'')) ''rdfs:comment'')
     = [''first''] \<and>
   length (filter (\<lambda>e. fst e = ''X'') (classMap index_dup_id)) = 1 \<and>
   (\<exists>c. Map_get (classMap index_dup_id) ''X'' = Some c \<and> label c = ''New'' \<and>
      description c = ''second'' \<and> parents c = [''P'', ''Q''])"
proof -
  have d: "declarations_of (owlClasses doc_dup_id) ''X'' =
     [Element ''owl:Class'' [(''rdf:about'', ''X'')]
        [Element ''rdfs:label'' [] [Text ''Old''],
         Element ''rdfs:comment'' [] [Text ''first''],
         Element ''rdfs:subClassOf'' [(''rdf:resource'', ''P'')] []],
      Element ''owl:Class'' [(''rdf:about'', ''X'')]
        [Element ''rdfs:label'' [] [Text ''Ne'', Comment ''draft'', Element ''b'' [] [Text ''w'']],
         Element ''rdfs:comment'' [] [Text ''second''],
         Element ''rdfs:subClassOf'' [(''rdf:resource'', ''Q'')] []]]"
    by (simp add: declarations_of_def owlClasses_def doc_dup_id_def indexed_id_def class_id_def
        js_or_def owl_class_def)
  then have ne: "declarations_of (owlClasses doc_dup_id) ''X'' \<noteq> []"
    by simp
  have p: "concat (map parent_refs (declarations_of (owlClasses doc_dup_id) ''X'')) = [''P'', ''Q'']"
    unfolding d by (simp add: parent_refs_def resource_of_def getElementsByTagName_def)
  from duplicate_declarations [OF parse_doc_dup_id ne]
  have "length (filter (\<lambda>e. fst e = ''X'') (classMap index_dup_id)) = 1 \<and>
        (\<exists>c. Map_get (classMap index_dup_id) ''X'' = Some c \<and> label c = ''New'' \<and>
           description c = ''second'' \<and> parents c = [''P'', ''Q''])"
    unfolding p unfolding d by (auto simp: getElementsByTagName_def)
  with parse_doc_dup_id d show ?thesis
    by (simp add: getElementsByTagName_def)
qed

text \<open>
  C10.  With the empty search term \<^verbatim>\<open>hasMatchingChild\<close> returns \<^verbatim>\<open>true\<close> for
  every identifier that is a key of the class map; for an identifier that is no key of
  the class map it returns \<^verbatim>\<open>false\<close>, whatever the term.
\<close>

theorem hasMatchingChild_empty_term_unknown_id:
  "(Map_get (classMap d) nodeId \<noteq> None \<longrightarrow> hasMatchingChild (Some d) nodeId [] = Some True) \<and>
   (Map_get (classMap d) nodeId = None \<longrightarrow> hasMatchingChild (Some d) nodeId term = Some False)"
proof (intro conjI impI)
  assume "Map_get (classMap d) nodeId \<noteq> None"
  then show "hasMatchingChild (Some d) nodeId [] = Some True"
    by (subst hasMatchingChild.simps) (auto simp: toLowerCase_def)
next
  assume "Map_get (classMap d) nodeId = None"
  then show "hasMatchingChild (Some d) nodeId term = Some False"
    by (subst hasMatchingChild.simps) simp
qed

theorem hasMatchingChild_empty_term_unknown_id_witness:
  "Map_get (classMap index_tree) ''A'' \<noteq> None \<and>
   hasMatchingChild (Some index_tree) ''A'' [] = Some True \<and>
   Map_get (classMap index_tree) ''Z'' = None \<and>
   hasMatchingChild (Some index_tree) ''Z'' ''metab'' = Some False"
proof -
  have a: "Map_get (classMap index_tree) ''A'' \<noteq> None"
    and z: "Map_get (classMap index_tree) ''Z'' = None"
    by (simp_all add: index_tree_def Map_get_def)
  from hasMatchingChild_empty_term_unknown_id [of index_tree "''A''"] a
  have "hasMatchingChild (Some index_tree) ''A'' [] = Some True"
    by blast
  moreover from hasMatchingChild_empty_term_unknown_id [of index_tree "''Z''" "''metab''"] z
  have "hasMatchingChild (Some index_tree) ''Z'' ''metab'' = Some False"
    by blast
  ultimately show ?thesis
    using a z by simp
qed

end
